theory Spec2Isabelle
  imports Complex_Main "HOL-Library.Word" "HOL-Library.Monad_Syntax"
begin

unbundle bit_operations_syntax

section \<open>Bytes and buffers\<close>

text \<open>
  A \<^verbatim>\<open>uchar\<close> is an 8-bit word; a buffer is the list of the bytes stored in it.
  The 64-bit quantities of the engine (\<^verbatim>\<open>i64\<close>: lengths, offsets) are integers; the
  model is of a 64-bit host, where \<^verbatim>\<open>ssize_t\<close>, \<^verbatim>\<open>size_t\<close> and \<^verbatim>\<open>i64\<close> have the same
  width, and of files and buffers below \<open>2^63\<close> bytes, so that no addition of offsets and
  lengths wraps. What \<^verbatim>\<open>open_stream_out\<close> computes from the limit of its caller can leave
  the range of \<^verbatim>\<open>i64\<close>; it is wrapped, by \<open>i64\<close> below.
\<close>

type_synonym byte = "8 word"

section \<open>Chunked reads and writes (stream.c, write\_1g and read\_1g)\<close>

text \<open>\<^verbatim>\<open>const i64 one_g = 1000 * 1024 * 1024;\<close>\<close>

definition one_g :: int where
  "one_g = 1000 * 1024 * 1024"

text \<open>
  \<^verbatim>\<open>write_1g(fd, buf, len)\<close>. The system call \<^verbatim>\<open>write(fd, offset_buf, count)\<close> is the
  parameter \<open>wr\<close>: from the state of the world, the bytes at \<^verbatim>\<open>offset_buf\<close> and the
  count it gives the return value and the new world. The loop may run forever (a call
  that keeps returning 0), so it is a partial function: \<open>None\<close> is "does not return".
\<close>

partial_function (option) write_1g_loop ::
  "('w \<Rightarrow> byte list \<Rightarrow> int \<Rightarrow> int \<times> 'w) \<Rightarrow> 'w \<Rightarrow> byte list \<Rightarrow> int \<Rightarrow> int \<Rightarrow> (int \<times> 'w) option"
where
  "write_1g_loop wr w offset_buf len tot =
     (if len > 0 then
        (case wr w offset_buf (if len > one_g then one_g else len) of
           (ret, w') \<Rightarrow>
             if ret < 0 then Some (ret, w')
             else write_1g_loop wr w' (drop (nat ret) offset_buf) (len - ret) (tot + ret))
      else Some (tot, w))"

declare write_1g_loop.simps [code]

definition write_1g ::
  "('w \<Rightarrow> byte list \<Rightarrow> int \<Rightarrow> int \<times> 'w) \<Rightarrow> 'w \<Rightarrow> byte list \<Rightarrow> int \<Rightarrow> (int \<times> 'w) option" where
  "write_1g wr w buf len = write_1g_loop wr w buf len 0"

text \<open>
  \<^verbatim>\<open>read_1g(fd, buf, len)\<close>. The system call \<^verbatim>\<open>read(fd, offset_buf, count)\<close> is the
  parameter \<open>rd\<close>: it gives the return value, the bytes it stored and the new world.
  The result carries the bytes stored in \<^verbatim>\<open>buf\<close> so far.
\<close>

partial_function (option) read_1g_loop ::
  "('w \<Rightarrow> int \<Rightarrow> int \<times> byte list \<times> 'w) \<Rightarrow> 'w \<Rightarrow> byte list \<Rightarrow> int \<Rightarrow> int \<Rightarrow> (int \<times> byte list \<times> 'w) option"
where
  "read_1g_loop rd w buf len tot =
     (if len > 0 then
        (case rd w (if len > one_g then one_g else len) of
           (ret, d, w') \<Rightarrow>
             if ret < 0 then Some (ret, buf, w')
             else read_1g_loop rd w' (buf @ take (nat ret) d) (len - ret) (tot + ret))
      else Some (tot, buf, w))"

declare read_1g_loop.simps [code]

definition read_1g ::
  "('w \<Rightarrow> int \<Rightarrow> int \<times> byte list \<times> 'w) \<Rightarrow> 'w \<Rightarrow> int \<Rightarrow> (int \<times> byte list \<times> 'w) option" where
  "read_1g rd w len = read_1g_loop rd w [] len 0"

text \<open>
  Observing the system calls: the traced call behaves as the call it wraps and appends
  the pair (count asked, value returned) to a trace kept beside the world.
\<close>

definition traced_write ::
  "('w \<Rightarrow> byte list \<Rightarrow> int \<Rightarrow> int \<times> 'w) \<Rightarrow>
   'w \<times> (int \<times> int) list \<Rightarrow> byte list \<Rightarrow> int \<Rightarrow> int \<times> 'w \<times> (int \<times> int) list" where
  "traced_write wr = (\<lambda>(w, tr) b c. case wr w b c of (r, w') \<Rightarrow> (r, w', tr @ [(c, r)]))"

definition traced_read ::
  "('w \<Rightarrow> int \<Rightarrow> int \<times> byte list \<times> 'w) \<Rightarrow>
   'w \<times> (int \<times> int) list \<Rightarrow> int \<Rightarrow> int \<times> byte list \<times> 'w \<times> (int \<times> int) list" where
  "traced_read rd = (\<lambda>(w, tr) c. case rd w c of (r, d, w') \<Rightarrow> (r, d, w', tr @ [(c, r)]))"

text \<open>
  The shape of a trace for a transfer of \<open>len\<close> bytes: every call asks for the remainder,
  capped at \<open>one_g\<close>; after a negative return nothing follows; after a return \<open>r \<ge> 0\<close>
  the rest is a trace for \<open>len - r\<close>; and the trace ends only when nothing remains.
\<close>

fun chunked :: "int \<Rightarrow> (int \<times> int) list \<Rightarrow> bool" where
  "chunked len [] = (len \<le> 0)"
| "chunked len ((c, r) # rest) =
     (0 < len \<and> c = min one_g len \<and> (if r < 0 then rest = [] else chunked (len - r) rest))"

lemma one_g_bounds: "0 < one_g" "one_g \<le> 2 ^ 30"
  by (simp_all add: one_g_def)

lemma chunked_counts:
  "chunked len tr \<Longrightarrow> (c, x) \<in> set tr \<Longrightarrow> 0 < c \<and> c \<le> one_g"
proof (induction tr arbitrary: len)
  case Nil
  then show ?case by simp
next
  case (Cons a tr)
  obtain c0 x0 where a: "a = (c0, x0)" by (cases a)
  show ?case
  proof (cases "(c, x) = a")
    case True
    with Cons.prems a one_g_bounds(1) show ?thesis by (simp add: min_def)
  next
    case False
    with Cons.prems a have in_tr: "(c, x) \<in> set tr" by auto
    then have "tr \<noteq> []" by auto
    with Cons.prems a have "chunked (len - x0) tr" by (simp split: if_splits)
    from Cons.IH [OF this in_tr] show ?thesis .
  qed
qed

lemma chunked_total:
  "chunked len tr \<Longrightarrow> 0 \<le> len \<Longrightarrow> (\<And>c x. (c, x) \<in> set tr \<Longrightarrow> x \<le> c) \<Longrightarrow>
     (tr \<noteq> [] \<and> snd (last tr) < 0) \<or> sum_list (map snd tr) = len"
proof (induction tr arbitrary: len)
  case Nil
  then show ?case by simp
next
  case (Cons a tr)
  obtain c0 x0 where a: "a = (c0, x0)" by (cases a)
  from Cons.prems(1) a have c0: "0 < len" "c0 = min one_g len" by simp_all
  have "x0 \<le> c0" using Cons.prems(3) [of c0 x0] a by simp
  with c0 have x0: "x0 \<le> len" by simp
  show ?case
  proof (cases "x0 < 0")
    case True
    with Cons.prems(1) a show ?thesis by simp
  next
    case False
    with Cons.prems(1) a have rest: "chunked (len - x0) tr" by simp
    have "(tr \<noteq> [] \<and> snd (last tr) < 0) \<or> sum_list (map snd tr) = len - x0"
      using Cons.IH [OF rest] x0 Cons.prems(3) by simp
    then show ?thesis using a False by auto
  qed
qed

lemma write_1g_loop_trace:
  assumes run: "write_1g_loop (traced_write wr) st b len tot = Some y"
  shows "\<exists>ext. snd (snd y) = snd st @ ext \<and> chunked len ext \<and>
           (if ext \<noteq> [] \<and> snd (last ext) < 0 then fst y = snd (last ext)
            else fst y = tot + sum_list (map snd ext))"
proof -
  let ?P = "\<lambda>sys st (b :: byte list) len tot y. sys = traced_write wr \<longrightarrow>
      (\<exists>ext. snd (snd y) = snd st @ ext \<and> chunked len ext \<and>
           (if ext \<noteq> [] \<and> snd (last ext) < 0 then fst y = snd (last ext)
            else fst y = tot + sum_list (map snd ext)))"
  have "?P (traced_write wr) st b len tot y"
  proof (rule write_1g_loop.raw_induct [where P = ?P, OF _ run], intro impI)
    fix rec sys st b len tot y
    assume IH: "\<And>sys st b len tot y. rec sys st b len tot = Some y \<Longrightarrow> ?P sys st b len tot y"
      and body: "(if 0 < len
          then case sys st b (if one_g < len then one_g else len) of
            (ret, w') \<Rightarrow> if ret < 0 then Some (ret, w')
                        else rec sys w' (drop (nat ret) b) (len - ret) (tot + ret)
          else Some (tot, st)) = Some y"
      and sys: "sys = traced_write wr"
    obtain w tr where st: "st = (w, tr)" by (cases st)
    show "\<exists>ext. snd (snd y) = snd st @ ext \<and> chunked len ext \<and>
           (if ext \<noteq> [] \<and> snd (last ext) < 0 then fst y = snd (last ext)
            else fst y = tot + sum_list (map snd ext))"
    proof (cases "0 < len")
      case False
      with body have "y = (tot, st)" by simp
      with False show ?thesis by simp
    next
      case True
      define c where "c = (if one_g < len then one_g else len)"
      have c: "c = min one_g len"
        by (simp add: c_def min_def)
      obtain x w1 where wr: "wr w b c = (x, w1)" by (cases "wr w b c")
      have call: "sys st b c = (x, w1, tr @ [(c, x)])"
        by (simp add: sys st traced_write_def wr)
      from body True
      have body': "(if x < 0 then Some (x, w1, tr @ [(c, x)])
                    else rec sys (w1, tr @ [(c, x)]) (drop (nat x) b) (len - x) (tot + x)) = Some y"
        unfolding c_def [symmetric] by (simp add: call)
      show ?thesis
      proof (cases "x < 0")
        case True
        with body' have y: "y = (x, w1, tr @ [(c, x)])" by simp
        have "chunked len [(c, x)]" using True \<open>0 < len\<close> c by simp
        then show ?thesis using True by (intro exI [of _ "[(c, x)]"]) (simp add: y st)
      next
        case False
        with body' have "rec sys (w1, tr @ [(c, x)]) (drop (nat x) b) (len - x) (tot + x) = Some y"
          by simp
        from IH [OF this] sys obtain ext where
          ext: "snd (snd y) = (tr @ [(c, x)]) @ ext" "chunked (len - x) ext"
            "if ext \<noteq> [] \<and> snd (last ext) < 0 then fst y = snd (last ext)
             else fst y = tot + x + sum_list (map snd ext)"
          by auto
        have 1: "snd (snd y) = snd st @ ((c, x) # ext)" using ext(1) st by simp
        have 2: "chunked len ((c, x) # ext)"
          using ext(2) False \<open>0 < len\<close> c by simp
        have 3: "if (c, x) # ext \<noteq> [] \<and> snd (last ((c, x) # ext)) < 0
             then fst y = snd (last ((c, x) # ext))
             else fst y = tot + sum_list (map snd ((c, x) # ext))"
          using ext(3) False by (cases "ext = []") simp_all
        from 1 2 3 show ?thesis by (intro exI [of _ "(c, x) # ext"]) simp
      qed
    qed
  qed
  then show ?thesis by simp
qed

lemma read_1g_loop_trace:
  assumes run: "read_1g_loop (traced_read rd) st b len tot = Some y"
  shows "\<exists>ext. snd (snd (snd y)) = snd st @ ext \<and> chunked len ext \<and>
           (if ext \<noteq> [] \<and> snd (last ext) < 0 then fst y = snd (last ext)
            else fst y = tot + sum_list (map snd ext))"
proof -
  let ?P = "\<lambda>sys st (b :: byte list) len tot y. sys = traced_read rd \<longrightarrow>
      (\<exists>ext. snd (snd (snd y)) = snd st @ ext \<and> chunked len ext \<and>
           (if ext \<noteq> [] \<and> snd (last ext) < 0 then fst y = snd (last ext)
            else fst y = tot + sum_list (map snd ext)))"
  have "?P (traced_read rd) st b len tot y"
  proof (rule read_1g_loop.raw_induct [where P = ?P, OF _ run], intro impI)
    fix rec sys st b len tot y
    assume IH: "\<And>sys st b len tot y. rec sys st b len tot = Some y \<Longrightarrow> ?P sys st b len tot y"
      and body: "(if 0 < len
          then case sys st (if one_g < len then one_g else len) of
            (ret, d, w') \<Rightarrow> if ret < 0 then Some (ret, b, w')
                        else rec sys w' (b @ take (nat ret) d) (len - ret) (tot + ret)
          else Some (tot, b, st)) = Some y"
      and sys: "sys = traced_read rd"
    obtain w tr where st: "st = (w, tr)" by (cases st)
    show "\<exists>ext. snd (snd (snd y)) = snd st @ ext \<and> chunked len ext \<and>
           (if ext \<noteq> [] \<and> snd (last ext) < 0 then fst y = snd (last ext)
            else fst y = tot + sum_list (map snd ext))"
    proof (cases "0 < len")
      case False
      with body have "y = (tot, b, st)" by simp
      with False show ?thesis by simp
    next
      case True
      define c where "c = (if one_g < len then one_g else len)"
      have c: "c = min one_g len"
        by (simp add: c_def min_def)
      obtain x d w1 where rd: "rd w c = (x, d, w1)" by (cases "rd w c")
      have call: "sys st c = (x, d, w1, tr @ [(c, x)])"
        by (simp add: sys st traced_read_def rd)
      from body True
      have body': "(if x < 0 then Some (x, b, w1, tr @ [(c, x)])
                    else rec sys (w1, tr @ [(c, x)]) (b @ take (nat x) d) (len - x) (tot + x)) = Some y"
        unfolding c_def [symmetric] by (simp add: call)
      show ?thesis
      proof (cases "x < 0")
        case True
        with body' have y: "y = (x, b, w1, tr @ [(c, x)])" by simp
        have "chunked len [(c, x)]" using True \<open>0 < len\<close> c by simp
        then show ?thesis using True by (intro exI [of _ "[(c, x)]"]) (simp add: y st)
      next
        case False
        with body' have "rec sys (w1, tr @ [(c, x)]) (b @ take (nat x) d) (len - x) (tot + x) = Some y"
          by simp
        from IH [OF this] sys obtain ext where
          ext: "snd (snd (snd y)) = (tr @ [(c, x)]) @ ext" "chunked (len - x) ext"
            "if ext \<noteq> [] \<and> snd (last ext) < 0 then fst y = snd (last ext)
             else fst y = tot + x + sum_list (map snd ext)"
          by auto
        have 1: "snd (snd (snd y)) = snd st @ ((c, x) # ext)" using ext(1) st by simp
        have 2: "chunked len ((c, x) # ext)"
          using ext(2) False \<open>0 < len\<close> c by simp
        have 3: "if (c, x) # ext \<noteq> [] \<and> snd (last ((c, x) # ext)) < 0
             then fst y = snd (last ((c, x) # ext))
             else fst y = tot + sum_list (map snd ((c, x) # ext))"
          using ext(3) False by (cases "ext = []") simp_all
        from 1 2 3 show ?thesis by (intro exI [of _ "(c, x) # ext"]) simp
      qed
    qed
  qed
  then show ?thesis by simp
qed

lemma trace_result:
  assumes "chunked len tr" and "0 \<le> len" and "\<forall>(c, x) \<in> set tr. x \<le> c"
    and "if tr \<noteq> [] \<and> snd (last tr) < 0 then r = snd (last tr)
         else r = sum_list (map snd tr)"
  shows "(\<forall>(c, x) \<in> set tr. 0 < c \<and> c \<le> 2 ^ 30) \<and>
         (r = len \<or> (r < 0 \<and> tr \<noteq> [] \<and> r = snd (last tr)))"
proof -
  have "0 < c \<and> c \<le> 2 ^ 30" if "(c, x) \<in> set tr" for c x
    using chunked_counts [OF assms(1) that] one_g_bounds(2) by simp
  moreover have "(tr \<noteq> [] \<and> snd (last tr) < 0) \<or> sum_list (map snd tr) = len"
    using chunked_total [OF assms(1,2)] assms(3) by blast
  ultimately show ?thesis using assms(4) by (auto split: if_splits)
qed

text \<open>
  Claim C6. For a length \<open>len \<ge> 0\<close>, when \<open>write_1g\<close> (and likewise \<open>read_1g\<close>) returns
  and no system call transferred more than it was asked for: every call was issued with
  a count of at most 1 GiB and equal to the remainder capped at \<open>one_g\<close> (after a short
  transfer the remainder is tried again, and the calls stop only at a negative return or
  when nothing remains), and the value returned is either exactly \<open>len\<close> or the negative
  value the last call returned; never a positive count below \<open>len\<close>.
\<close>

theorem chunked_io:
  assumes "0 \<le> len"
  shows "(write_1g (traced_write wr) (w, []) buf len = Some (r, w', tr) \<and>
            (\<forall>(c, x) \<in> set tr. x \<le> c) \<longrightarrow>
              chunked len tr \<and> (\<forall>(c, x) \<in> set tr. 0 < c \<and> c \<le> 2 ^ 30) \<and>
              (r = len \<or> (r < 0 \<and> tr \<noteq> [] \<and> r = snd (last tr)))) \<and>
         (read_1g (traced_read rd) (v, []) len = Some (q, d, v', tq) \<and>
            (\<forall>(c, x) \<in> set tq. x \<le> c) \<longrightarrow>
              chunked len tq \<and> (\<forall>(c, x) \<in> set tq. 0 < c \<and> c \<le> 2 ^ 30) \<and>
              (q = len \<or> (q < 0 \<and> tq \<noteq> [] \<and> q = snd (last tq))))"
proof (rule conjI; rule impI; elim conjE)
  assume run: "write_1g (traced_write wr) (w, []) buf len = Some (r, w', tr)"
    and le: "\<forall>(c, x) \<in> set tr. x \<le> c"
  from write_1g_loop_trace [OF run [unfolded write_1g_def]]
  have tr: "chunked len tr"
    "if tr \<noteq> [] \<and> snd (last tr) < 0 then r = snd (last tr) else r = sum_list (map snd tr)"
    by (auto split: if_splits)
  from trace_result [OF tr(1) assms le tr(2)]
  show "chunked len tr \<and> (\<forall>(c, x) \<in> set tr. 0 < c \<and> c \<le> 2 ^ 30) \<and>
        (r = len \<or> (r < 0 \<and> tr \<noteq> [] \<and> r = snd (last tr)))"
    using tr(1) by simp
next
  assume run: "read_1g (traced_read rd) (v, []) len = Some (q, d, v', tq)"
    and le: "\<forall>(c, x) \<in> set tq. x \<le> c"
  from read_1g_loop_trace [OF run [unfolded read_1g_def]]
  have tq: "chunked len tq"
    "if tq \<noteq> [] \<and> snd (last tq) < 0 then q = snd (last tq) else q = sum_list (map snd tq)"
    by (auto split: if_splits)
  from trace_result [OF tq(1) assms le tq(2)]
  show "chunked len tq \<and> (\<forall>(c, x) \<in> set tq. 0 < c \<and> c \<le> 2 ^ 30) \<and>
        (q = len \<or> (q < 0 \<and> tq \<noteq> [] \<and> q = snd (last tq)))"
    using tq(1) by simp
qed

text \<open>
  A run of each: a write of 7 bytes over a call that transfers at most 3 bytes at a time
  returns 7 after three calls; a read of 7 bytes whose second call fails returns that
  call's \<open>-1\<close>.
\<close>

theorem chunked_io_witness:
  "write_1g (traced_write (\<lambda>w b c. (min c 3, w @ take (nat (min c 3)) b))) ([], [])
       [1, 2, 3, 4, 5, 6, 7] 7 = Some (7, [1, 2, 3, 4, 5, 6, 7], [(7, 3), (4, 3), (1, 1)]) \<and>
   chunked 7 [(7, 3), (4, 3), (1, 1)] \<and>
   read_1g (traced_read (\<lambda>w c. if w = (0 :: nat) then (2, [8, 9], 1) else (-1, [], w))) (0, []) 7
     = Some (-1, [8, 9], 1, [(7, 2), (5, -1)]) \<and>
   chunked 7 [(7, 2), (5, -1)]"
proof -
  have w: "write_1g (traced_write (\<lambda>w b c. (min c 3, w @ take (nat (min c 3)) b))) ([], [])
       [1, 2, 3, 4, 5, 6, 7] 7 = Some (7, [1, 2, 3, 4, 5, 6, 7], [(7, 3), (4, 3), (1, 1)])"
    by (simp add: write_1g_def write_1g_loop.simps traced_write_def one_g_def)
  have r: "read_1g (traced_read (\<lambda>w c. if w = (0 :: nat) then (2, [8, 9], 1) else (-1, [], w))) (0, []) 7
     = Some (-1, [8, 9], 1, [(7, 2), (5, -1)])"
    by (simp add: read_1g_def read_1g_loop.simps traced_read_def one_g_def)
  have len: "(0 :: int) \<le> 7" by simp
  from chunked_io [OF len, of "\<lambda>w b c. (min c 3, w @ take (nat (min c 3)) b)" "[]"
      "[1, 2, 3, 4, 5, 6, 7]" 7 "[1, 2, 3, 4, 5, 6, 7]" "[(7, 3), (4, 3), (1, 1)]"
      "\<lambda>w c. if w = (0 :: nat) then (2, [8, 9], 1) else (-1, [], w)" 0
      "-1" "[8, 9]" 1 "[(7, 2), (5, -1)]"] w r
  show ?thesis by simp
qed

section \<open>Outcomes of a call\<close>

text \<open>
  A call of the engine returns a value, ends the process, or does not return at all. The
  first two are the constructors of \<open>outcome\<close>; not returning is \<open>None\<close> of the option
  around it. The process ends through \<^verbatim>\<open>fatal()\<close> (util.c: it prints and calls
  \<^verbatim>\<open>exit(1)\<close>) and, in one place, by the signal of a division that traps.
\<close>

datatype 'a outcome = Return 'a | Fatal

text \<open>Sequencing: a fatal exit or a call that does not return ends the sequence.\<close>

definition obind :: "'a outcome option \<Rightarrow> ('a \<Rightarrow> 'b outcome option) \<Rightarrow> 'b outcome option" where
  "obind m f = (case m of None \<Rightarrow> None | Some Fatal \<Rightarrow> Some Fatal | Some (Return x) \<Rightarrow> f x)"

lemma obind_mono [partial_function_mono]:
  assumes mf: "mono_option B" and mg: "\<And>y. mono_option (\<lambda>f. C y f)"
  shows "mono_option (\<lambda>f. obind (B f) (\<lambda>y. C y f))"
proof -
  have "mono_option (\<lambda>f. Option.bind (B f) (\<lambda>r. case r of Return y \<Rightarrow> C y f | Fatal \<Rightarrow> Some Fatal))"
  proof (rule bind_mono [OF mf])
    fix r
    show "mono_option (\<lambda>f. case r of Return y \<Rightarrow> C y f | Fatal \<Rightarrow> Some Fatal)"
      by (cases r) (simp_all add: mg option.const_mono)
  qed
  moreover have "obind m k = Option.bind m (\<lambda>r. case r of Return y \<Rightarrow> k y | Fatal \<Rightarrow> Some Fatal)" for m :: "'c outcome option" and k :: "'c \<Rightarrow> 'd outcome option"
    by (simp add: obind_def split: option.splits outcome.splits)
  ultimately show ?thesis by simp
qed

lemma obind_simps [simp]:
  "obind None f = None"
  "obind (Some Fatal) f = Some Fatal"
  "obind (Some (Return x)) f = f x"
  by (simp_all add: obind_def)

lemma obind_eq_Return:
  "obind m f = Some (Return y) \<longleftrightarrow> (\<exists>x. m = Some (Return x) \<and> f x = Some (Return y))"
  by (cases m) (auto simp: obind_def split: outcome.splits)


section \<open>Doubles\<close>

text \<open>
  The probe of \<^verbatim>\<open>lzo_compresses\<close> compares two values of the C type \<^verbatim>\<open>double\<close>, one of them
  a product. A finite double is \<open>Double m e\<close>, the number \<open>m * 2^e\<close>, with integers \<open>m\<close> and
  \<open>e\<close> and a significand \<open>m\<close> of at most 53 bits. \<open>nearest m e\<close> is the double nearest to
  \<open>m * 2^e\<close> for any integer \<open>m\<close>: the significand is cut to its 53 leading bits and rounded
  to nearest, a tie going to the even significand, as IEEE 754 arithmetic does in its
  default rounding mode. The conversion \<^verbatim>\<open>(double) n\<close> of an integer and the product of two
  doubles are the exact results rounded that way, and the comparison is that of the two
  numbers.

  The range of the exponent is not modelled, nor are infinities and NaN:
  \<^verbatim>\<open>control.threshold\<close> is taken to be a finite double. The probe only compares such a
  product with a double that is an integer, and for that comparison an overflow to
  infinity or a subnormal result of the product gives the same answer as the number
  kept here.
\<close>

datatype double = Double (mant: int) (expo: int)

fun bit_width :: "nat \<Rightarrow> nat" where
  "bit_width n = (if n = 0 then 0 else Suc (bit_width (n div 2)))"

declare bit_width.simps [simp del]

definition round_even :: "int \<Rightarrow> nat \<Rightarrow> int" where
  "round_even m k =
     (let q = m div 2 ^ k; r = m mod 2 ^ k
      in if 2 * r < 2 ^ k then q
         else if 2 * r > 2 ^ k then q + 1
         else if even q then q else q + 1)"

definition nearest :: "int \<Rightarrow> int \<Rightarrow> double" where
  "nearest m e = (let k = bit_width (nat \<bar>m\<bar>) - 53 in Double (round_even m k) (e + int k))"

definition double_of_int :: "int \<Rightarrow> double" where
  "double_of_int n = nearest n 0"

definition double_mult :: "double \<Rightarrow> double \<Rightarrow> double" where
  "double_mult a b = nearest (mant a * mant b) (expo a + expo b)"

definition double_less :: "double \<Rightarrow> double \<Rightarrow> bool" where
  "double_less a b =
     (let e = min (expo a) (expo b)
      in mant a * 2 ^ nat (expo a - e) < mant b * 2 ^ nat (expo b - e))"

section \<open>Configuration, host and libraries\<close>

text \<open>
  The fields of the global \<^verbatim>\<open>control\<close> that stream.c reads, and the flag macros
  (\<^verbatim>\<open>NO_COMPRESS\<close>, \<^verbatim>\<open>LZMA_COMPRESS\<close>, ...) it tests. The header that declares them is
  not among the sources, so they are parameters of the model.
\<close>

record control =
  threads :: int
  threshold :: double
  major_version :: int
  minor_version :: int
  NO_COMPRESS :: bool
  LZMA_COMPRESS :: bool
  LZO_COMPRESS :: bool
  BZIP2_COMPRESS :: bool
  ZLIB_COMPRESS :: bool
  ZPAQ_COMPRESS :: bool

text \<open>
  The compression tags \<^verbatim>\<open>CTYPE_NONE\<close>, ..., \<^verbatim>\<open>CTYPE_ZPAQ\<close>. Their byte values are macros
  declared outside the sources; \<open>ctype_byte\<close> below gives them.
\<close>

datatype ctype = CTYPE_NONE | CTYPE_BZIP2 | CTYPE_LZO | CTYPE_LZMA | CTYPE_GZIP | CTYPE_ZPAQ

text \<open>
  What the host and the headers fix: the macros \<^verbatim>\<open>BITS32\<close>, \<^verbatim>\<open>STREAM_BUFSIZE\<close>, \<^verbatim>\<open>two_gig\<close>
  and \<^verbatim>\<open>LZO1X_1_MEM_COMPRESS\<close> (declared outside the sources), the byte value of each
  compression tag, the sizes of the structures passed to \<^verbatim>\<open>malloc\<close> and \<^verbatim>\<open>calloc\<close>, and the
  allocator: \<open>heap_ok h k n\<close> tells whether the \<open>k\<close>-th allocation request of the process,
  for \<open>n\<close> bytes, succeeds.
\<close>

record host =
  BITS32 :: bool
  STREAM_BUFSIZE :: int
  two_gig :: int
  LZO1X_1_MEM_COMPRESS :: int
  ctype_byte :: "ctype \<Rightarrow> byte"
  sizeof_stream_info :: int
  sizeof_stream :: int
  sizeof_pthread_t :: int
  sizeof_compress_thread :: int
  sizeof_uncomp_thread :: int
  heap_ok :: "nat \<Rightarrow> int \<Rightarrow> bool"

text \<open>
  The heap is observed through the list of the requests made so far, each with its
  size and whether it succeeded. \<^verbatim>\<open>free\<close> is not modelled.
\<close>

type_synonym heap = "(int \<times> bool) list"

definition malloc :: "host \<Rightarrow> heap \<Rightarrow> int \<Rightarrow> bool \<times> heap" where
  "malloc h hp n = (let ok = heap_ok h (length hp) n in (ok, hp @ [(n, ok)]))"

text \<open>
  The compression libraries are parameters. Each function is given the source bytes (and
  the capacity of the destination where the C function takes one) and yields its return
  code and the bytes it produced; the level, thread count and property arguments are
  fixed by \<^verbatim>\<open>control\<close> and are part of the function. \<^verbatim>\<open>lzo1x_1_compress\<close> returns nothing
  but \<^verbatim>\<open>LZO_E_OK\<close>. For \<^verbatim>\<open>zpipe_compress\<close>, \<open>None\<close> stands for a failure of the memory
  streams around it (\<^verbatim>\<open>fmemopen\<close>, \<^verbatim>\<open>open_memstream\<close>, \<^verbatim>\<open>memstream_update_buffer\<close>), which
  the caller answers with \<^verbatim>\<open>fatal\<close>.
\<close>

datatype lzma_rc = SZ_OK | SZ_ERROR_MEM | SZ_ERROR_PARAM | SZ_ERROR_OUTPUT_EOF | SZ_ERROR_THREAD
  | SZ_ERROR_UNIDENTIFIED

record codecs =
  lzo1x_1_compress :: "byte list \<Rightarrow> byte list"
  LzmaCompress :: "byte list \<Rightarrow> int \<Rightarrow> lzma_rc \<times> byte list"
  BZ2_bzBuffToBuffCompress :: "byte list \<Rightarrow> int \<Rightarrow> bool \<times> byte list"
  compress2 :: "byte list \<Rightarrow> int \<Rightarrow> bool \<times> byte list"
  zpipe_compress :: "byte list \<Rightarrow> byte list option"

section \<open>The LZO probe (stream.c, lzo\_compresses)\<close>

text \<open>
  The \<^verbatim>\<open>while (test_len > 0)\<close> loop of \<^verbatim>\<open>lzo_compresses\<close>. The list \<open>tested\<close> is an
  observation added to the model: the pair (\<^verbatim>\<open>in_len\<close>, \<^verbatim>\<open>dlen\<close>) of every call of
  \<^verbatim>\<open>lzo1x_1_compress\<close>, in order (its length is \<^verbatim>\<open>workcounter\<close>). The test
  \<^verbatim>\<open>(double) dlen < (double)in_len * control.threshold\<close> is made on doubles, with the
  rounded product. When \<^verbatim>\<open>in_len\<close> is 0 the C loop never ends; the partial function is
  then \<open>None\<close>.
\<close>

partial_function (option) lzo_compresses_loop ::
  "codecs \<Rightarrow> double \<Rightarrow> int \<Rightarrow> byte list \<Rightarrow> int \<Rightarrow> int \<Rightarrow> int \<Rightarrow> (int \<times> int) list
     \<Rightarrow> (int \<times> (int \<times> int) list) option"
where
  "lzo_compresses_loop cod thr B test_buf test_len in_len buftest_size tested =
     (if test_len > 0 then
        (let dlen = int (length (lzo1x_1_compress cod (take (nat in_len) test_buf)));
             tested' = tested @ [(in_len, dlen)]
         in if double_less (double_of_int dlen) (double_mult (double_of_int in_len) thr)
            then Some (1, tested')
            else
              (let test_len' = test_len - in_len in
               if test_len' \<noteq> 0 then
                 (let buftest_size' = (if buftest_size < B then 2 * buftest_size else buftest_size)
                  in lzo_compresses_loop cod thr B (drop (nat in_len) test_buf) test_len'
                       (min test_len' buftest_size') buftest_size' tested')
               else lzo_compresses_loop cod thr B test_buf test_len' in_len buftest_size tested'))
      else Some (0, tested))"

declare lzo_compresses_loop.simps [code]

text \<open>
  \<^verbatim>\<open>lzo_compresses(s_buf, s_len)\<close>: result 1 is "compressible". The two allocations are
  fatal when they fail.
\<close>

definition lzo_compresses ::
  "host \<Rightarrow> control \<Rightarrow> codecs \<Rightarrow> heap \<Rightarrow> byte list \<Rightarrow> int
     \<Rightarrow> (int \<times> (int \<times> int) list \<times> heap) outcome option" where
  "lzo_compresses h ctl cod hp s_buf s_len =
     (let test_len = s_len;
          buftest_size = (if test_len > 5 * STREAM_BUFSIZE h then STREAM_BUFSIZE h
                          else STREAM_BUFSIZE h div 4096)
      in if double_less (double_of_int 1) (threshold ctl) then Some (Return (1, [], hp))
         else
           (case malloc h hp (LZO1X_1_MEM_COMPRESS h) of
              (wrkmem, hp1) \<Rightarrow>
                if \<not> wrkmem then Some Fatal
                else
                  (let in_len = min test_len buftest_size;
                       dlen = STREAM_BUFSIZE h + STREAM_BUFSIZE h div 16 + 64 + 3
                   in case malloc h hp1 dlen of
                        (c_buf, hp2) \<Rightarrow>
                          if \<not> c_buf then Some Fatal
                          else
                            (case lzo_compresses_loop cod (threshold ctl) (STREAM_BUFSIZE h)
                                    s_buf test_len in_len buftest_size [] of
                               None \<Rightarrow> None
                             | Some (ret, tested) \<Rightarrow> Some (Return (ret, tested, hp2))))))"

text \<open>
  What the claim says of the windows: each window is the next \<open>min remaining cap\<close> bytes
  of the buffer, its second component is the length \<^verbatim>\<open>lzo1x_1_compress\<close> gave for exactly
  those bytes, and the cap doubles from one window to the next as long as it is below
  \<^verbatim>\<open>STREAM_BUFSIZE\<close>. A window beats the threshold when its compressed length is strictly
  below its length times the threshold, the product being the one of doubles.
\<close>

fun probe_windows :: "codecs \<Rightarrow> int \<Rightarrow> byte list \<Rightarrow> int \<Rightarrow> int \<Rightarrow> (int \<times> int) list \<Rightarrow> bool" where
  "probe_windows cod B buf cap remaining [] = True"
| "probe_windows cod B buf cap remaining ((n, d) # rest) =
     (n = min remaining cap \<and> d = int (length (lzo1x_1_compress cod (take (nat n) buf))) \<and>
      probe_windows cod B (drop (nat n) buf) (if cap < B then 2 * cap else cap) (remaining - n) rest)"

definition beats :: "double \<Rightarrow> int \<times> int \<Rightarrow> bool" where
  "beats thr = (\<lambda>(n, d). double_less (double_of_int d) (double_mult (double_of_int n) thr))"

text \<open>
  A host, libraries and a configuration for the concrete runs below: every allocation
  succeeds, and every "compressor" drops adjacent repetitions (the LZO one appends a
  zero byte).
\<close>

definition ex_host :: host where
  "ex_host = \<lparr>BITS32 = False, STREAM_BUFSIZE = 10 * 1024 * 1024, two_gig = 2 * 1024 * 1024 * 1024,
     LZO1X_1_MEM_COMPRESS = 131072,
     ctype_byte = (\<lambda>t. case t of CTYPE_NONE \<Rightarrow> 3 | CTYPE_BZIP2 \<Rightarrow> 4 | CTYPE_LZO \<Rightarrow> 5
                        | CTYPE_LZMA \<Rightarrow> 6 | CTYPE_GZIP \<Rightarrow> 7 | CTYPE_ZPAQ \<Rightarrow> 8),
     sizeof_stream_info = 64, sizeof_stream = 64,
     sizeof_pthread_t = 8, sizeof_compress_thread = 96, sizeof_uncomp_thread = 136,
     heap_ok = (\<lambda>k n. True)\<rparr>"

definition ex_codecs :: codecs where
  "ex_codecs = \<lparr>lzo1x_1_compress = (\<lambda>b. remdups_adj b @ [0]),
     LzmaCompress = (\<lambda>b cap. (SZ_OK, remdups_adj b)),
     BZ2_bzBuffToBuffCompress = (\<lambda>b cap. (True, remdups_adj b)),
     compress2 = (\<lambda>b cap. (True, remdups_adj b)),
     zpipe_compress = (\<lambda>b. Some (remdups_adj b))\<rparr>"

definition ex_control :: control where
  "ex_control = \<lparr>threads = 2, threshold = Double 1 0, major_version = 0, minor_version = 6,
     NO_COMPRESS = False, LZMA_COMPRESS = True, LZO_COMPRESS = False, BZIP2_COMPRESS = False,
     ZLIB_COMPRESS = False, ZPAQ_COMPRESS = False\<rparr>"


lemma lzo_compresses_loop_sound:
  assumes run: "lzo_compresses_loop cod thr B buf test_len in_len cap tested = Some y"
    and inl: "0 < test_len \<longrightarrow> in_len = min test_len cap"
  shows "\<exists>ext. snd y = tested @ ext \<and> probe_windows cod B buf cap test_len ext \<and>
           ((fst y = 1 \<and> ext \<noteq> [] \<and> beats thr (last ext) \<and> (\<forall>w \<in> set (butlast ext). \<not> beats thr w)) \<or>
            (fst y = 0 \<and> (\<forall>w \<in> set ext. \<not> beats thr w) \<and>
               sum_list (map fst ext) = (if 0 < test_len then test_len else 0))) \<and>
           (test_len \<le> 0 \<longrightarrow> ext = [])"
proof -
  let ?Q = "\<lambda>buf test_len cap tested y ext. snd y = tested @ ext \<and> probe_windows cod B buf cap test_len ext \<and>
           ((fst y = (1::int) \<and> ext \<noteq> [] \<and> beats thr (last ext) \<and> (\<forall>w \<in> set (butlast ext). \<not> beats thr w)) \<or>
            (fst y = 0 \<and> (\<forall>w \<in> set ext. \<not> beats thr w) \<and>
               sum_list (map fst ext) = (if 0 < test_len then test_len else 0))) \<and>
           (test_len \<le> 0 \<longrightarrow> ext = [])"
  let ?P = "\<lambda>cod' thr' B' buf test_len in_len cap tested y.
      cod' = cod \<and> thr' = thr \<and> B' = B \<and> (0 < test_len \<longrightarrow> in_len = min test_len cap) \<longrightarrow>
      (\<exists>ext. ?Q buf test_len cap tested y ext)"
  have "?P cod thr B buf test_len in_len cap tested y"
    apply (rule lzo_compresses_loop.raw_induct [where P = ?P, OF _ run])
    subgoal premises prems for rec cod' thr' B' buf test_len in_len cap tested y
    proof (intro impI, elim conjE)
      assume eqs: "cod' = cod" "thr' = thr" "B' = B"
        and inl: "0 < test_len \<longrightarrow> in_len = min test_len cap"
      note IH = prems(1) and body = prems(2) [unfolded eqs]
      show "\<exists>ext. ?Q buf test_len cap tested y ext"
      proof (cases "0 < test_len")
        case False
        with body have "y = (0, tested)" by simp
        with False show ?thesis by simp
      next
        case True
        with inl have in_len: "in_len = min test_len cap" by simp
        define dlen where "dlen = int (length (lzo1x_1_compress cod (take (nat in_len) buf)))"
        define cap' where "cap' = (if cap < B then 2 * cap else cap)"
        show ?thesis
        proof (cases "double_less (double_of_int dlen) (double_mult (double_of_int in_len) thr)")
          case b: True
          with body True have y: "y = (1, tested @ [(in_len, dlen)])"
            by (simp add: dlen_def Let_def)
          show ?thesis
            apply (rule exI [of _ "[(in_len, dlen)]"])
            using b True by (simp add: y in_len dlen_def beats_def)
        next
          case nb: False
          show ?thesis
          proof (cases "test_len - in_len = 0")
            case z: True
            with body True nb
            have "rec cod thr B buf 0 in_len cap (tested @ [(in_len, dlen)]) = Some y"
              by (simp add: dlen_def Let_def)
            from IH [OF this] eqs obtain ext where ext: "?Q buf 0 cap (tested @ [(in_len, dlen)]) y ext"
              by auto
            then have "ext = []" by simp
            with ext have y: "snd y = tested @ [(in_len, dlen)]" "fst y = 0" by auto
            show ?thesis
              apply (rule exI [of _ "[(in_len, dlen)]"])
              using y z True nb in_len by (simp add: dlen_def beats_def)
          next
            case nz: False
            with body True nb
            have "rec cod thr B (drop (nat in_len) buf) (test_len - in_len)
                    (min (test_len - in_len) cap') cap' (tested @ [(in_len, dlen)]) = Some y"
              by (simp add: dlen_def cap'_def Let_def)
            from IH [OF this] eqs obtain ext where
              ext: "?Q (drop (nat in_len) buf) (test_len - in_len) cap' (tested @ [(in_len, dlen)]) y ext"
              by auto
            have le: "in_len \<le> test_len" using in_len by simp
            show ?thesis
              apply (rule exI [of _ "(in_len, dlen) # ext"])
              using ext nz True nb le in_len
              by (auto simp: dlen_def beats_def cap'_def)
          qed
        qed
      qed
    qed
    done
  with inl show ?thesis by simp
qed

lemma lzo_compresses_loop_returns:
  assumes "0 < cap" and "0 < test_len \<longrightarrow> in_len = min test_len cap"
  shows "\<exists>y. lzo_compresses_loop cod thr B buf test_len in_len cap tested = Some y"
  using assms
proof (induction "nat test_len" arbitrary: buf test_len in_len cap tested rule: less_induct)
  case less
  show ?case
  proof (cases "0 < test_len")
    case False
    then show ?thesis by (subst lzo_compresses_loop.simps) simp
  next
    case True
    with less.prems have in_len: "in_len = min test_len cap" "0 < in_len" by simp_all
    define dlen where "dlen = int (length (lzo1x_1_compress cod (take (nat in_len) buf)))"
    define cap' where "cap' = (if cap < B then 2 * cap else cap)"
    have cap': "0 < cap'" using less.prems(1) by (simp add: cap'_def)
    have smaller: "nat (test_len - in_len) < nat test_len" using in_len True by simp
    show ?thesis
    proof (cases "double_less (double_of_int dlen) (double_mult (double_of_int in_len) thr)")
      case True
      with \<open>0 < test_len\<close> show ?thesis
        by (subst lzo_compresses_loop.simps) (simp add: dlen_def Let_def)
    next
      case nb: False
      show ?thesis
      proof (cases "test_len - in_len = 0")
        case True
        have "\<exists>y. lzo_compresses_loop cod thr B buf (test_len - in_len) in_len cap
                 (tested @ [(in_len, dlen)]) = Some y"
          using True by (subst lzo_compresses_loop.simps) simp
        with nb True \<open>0 < test_len\<close> show ?thesis
          by (subst lzo_compresses_loop.simps) (simp add: dlen_def Let_def)
      next
        case False
        have "\<exists>y. lzo_compresses_loop cod thr B (drop (nat in_len) buf) (test_len - in_len)
                 (min (test_len - in_len) cap') cap' (tested @ [(in_len, dlen)]) = Some y"
          by (rule less.hyps [OF smaller cap']) simp
        with nb False \<open>0 < test_len\<close> show ?thesis
          by (subst lzo_compresses_loop.simps) (simp add: dlen_def cap'_def Let_def)
      qed
    qed
  qed
qed

text \<open>The first value of \<^verbatim>\<open>buftest_size\<close>.\<close>

definition probe_cap :: "host \<Rightarrow> int \<Rightarrow> int" where
  "probe_cap h s_len =
     (if s_len > 5 * STREAM_BUFSIZE h then STREAM_BUFSIZE h else STREAM_BUFSIZE h div 4096)"

text \<open>
  Claim C7. If the threshold is above 1 the probe returns 1 (compressible) at once, with
  no call of the compressor and no allocation. Otherwise, when it returns, the windows
  it compressed are consecutive slices of the buffer whose size cap doubles up to
  \<^verbatim>\<open>STREAM_BUFSIZE\<close>; it returns 1 exactly when some tested window beat the threshold, and
  when it returns 0 the windows add up to the whole buffer (and none beat the threshold).
  For \<^verbatim>\<open>STREAM_BUFSIZE\<close> of at least 4096 the probe always ends (returns or is fatal).
  Both comparisons are those of the code: \<^verbatim>\<open>control.threshold > 1\<close> and
  \<^verbatim>\<open>(double) dlen < (double)in_len * control.threshold\<close>, on doubles.
\<close>

theorem lz_probe:
  "(double_less (double_of_int 1) (threshold ctl) \<longrightarrow>
      lzo_compresses h ctl cod hp s_buf s_len = Some (Return (1, [], hp))) \<and>
   (\<not> double_less (double_of_int 1) (threshold ctl) \<and> 0 \<le> s_len \<and>
      lzo_compresses h ctl cod hp s_buf s_len = Some (Return (ret, tested, hp')) \<longrightarrow>
        probe_windows cod (STREAM_BUFSIZE h) s_buf (probe_cap h s_len) s_len tested \<and>
        (ret = 1 \<or> ret = 0) \<and>
        ((ret = 1) = (\<exists>w \<in> set tested. beats (threshold ctl) w)) \<and>
        (ret = 0 \<longrightarrow> sum_list (map fst tested) = s_len)) \<and>
   (4096 \<le> STREAM_BUFSIZE h \<longrightarrow> lzo_compresses h ctl cod hp s_buf s_len \<noteq> None)"
proof (intro conjI impI)
  assume "double_less (double_of_int 1) (threshold ctl)"
  then show "lzo_compresses h ctl cod hp s_buf s_len = Some (Return (1, [], hp))"
    by (simp add: lzo_compresses_def Let_def)
next
  assume a: "\<not> double_less (double_of_int 1) (threshold ctl) \<and> 0 \<le> s_len \<and>
      lzo_compresses h ctl cod hp s_buf s_len = Some (Return (ret, tested, hp'))"
  then have loop: "lzo_compresses_loop cod (threshold ctl) (STREAM_BUFSIZE h) s_buf s_len
       (min s_len (probe_cap h s_len)) (probe_cap h s_len) [] = Some (ret, tested)"
    by (auto simp: lzo_compresses_def Let_def probe_cap_def
          split: prod.splits if_splits option.splits)
  from lzo_compresses_loop_sound [OF loop] a
  have s: "probe_windows cod (STREAM_BUFSIZE h) s_buf (probe_cap h s_len) s_len tested"
    "(ret = 1 \<and> tested \<noteq> [] \<and> beats (threshold ctl) (last tested) \<and>
        (\<forall>w \<in> set (butlast tested). \<not> beats (threshold ctl) w)) \<or>
     (ret = 0 \<and> (\<forall>w \<in> set tested. \<not> beats (threshold ctl) w) \<and>
        sum_list (map fst tested) = s_len)"
    by (auto split: if_splits)
  show "probe_windows cod (STREAM_BUFSIZE h) s_buf (probe_cap h s_len) s_len tested" by fact
  show "ret = 1 \<or> ret = 0" using s(2) by blast
  show "(ret = 1) = (\<exists>w \<in> set tested. beats (threshold ctl) w)"
    using s(2) last_in_set [of tested] by auto
  show "sum_list (map fst tested) = s_len" if "ret = 0" using s(2) that by auto
next
  assume B: "4096 \<le> STREAM_BUFSIZE h"
  then have "0 < STREAM_BUFSIZE h div 4096"
    using pos_imp_zdiv_pos_iff [of 4096 "STREAM_BUFSIZE h"] by simp
  with B have "0 < probe_cap h s_len" by (simp add: probe_cap_def)
  from lzo_compresses_loop_returns [OF this, of s_len "min s_len (probe_cap h s_len)"
      cod "threshold ctl" "STREAM_BUFSIZE h" s_buf "[]"]
  obtain y where "lzo_compresses_loop cod (threshold ctl) (STREAM_BUFSIZE h) s_buf s_len
       (min s_len (probe_cap h s_len)) (probe_cap h s_len) [] = Some y"
    by auto
  then show "lzo_compresses h ctl cod hp s_buf s_len \<noteq> None"
    by (auto simp: lzo_compresses_def Let_def probe_cap_def split: prod.splits)
qed

text \<open>
  The double nearest to 0.9, which is \<open>8106479329266893 / 2^53\<close> and a little above 0.9.
  Its product with 10 is rounded to 9, so that a window of 10 bytes compressed to 9 bytes
  does not beat it, where the exact product would be above 9.
\<close>

definition threshold_09 :: double where
  "threshold_09 = Double 8106479329266893 (- 53)"

lemma bit_width_numeral [simp]:
  "bit_width 0 = 0"
  "bit_width (numeral n) = Suc (bit_width (numeral n div 2))"
  by (simp_all add: bit_width.simps [of 0] bit_width.simps [of "numeral n"])

lemma bit_width_one [simp]: "bit_width 1 = 1" "bit_width (Suc 0) = 1"
  by (simp_all add: bit_width.simps [of 1] bit_width.simps [of "Suc 0"])

lemmas double_defs = double_less_def double_mult_def double_of_int_def nearest_def
  round_even_def Let_def

text \<open>
  Three runs. With threshold 2 nothing is compressed. With threshold 1 the first window
  of a 7-byte buffer (all 7 bytes, cap 2560) compresses to 6 bytes and the probe returns
  1. With the threshold nearest to 0.9 a 10-byte buffer is one window that compresses to
  9 bytes, and the probe returns 0.
\<close>

theorem lz_probe_witness:
  "lzo_compresses ex_host (ex_control\<lparr>threshold := Double 2 0\<rparr>) ex_codecs [] [1, 2, 3, 4, 5, 5, 5] 7
     = Some (Return (1, [], [])) \<and>
   lzo_compresses ex_host ex_control ex_codecs [] [1, 2, 3, 4, 5, 5, 5] 7
     = Some (Return (1, [(7, 6)], [(131072, True), (11141187, True)])) \<and>
   probe_windows ex_codecs (10 * 1024 * 1024) [1, 2, 3, 4, 5, 5, 5] 2560 7 [(7, 6)] \<and>
   beats (Double 1 0) (7, 6) \<and>
   lzo_compresses ex_host (ex_control\<lparr>threshold := threshold_09\<rparr>) ex_codecs []
       [1, 1, 1, 2, 3, 4, 5, 6, 7, 8] 10
     = Some (Return (0, [(10, 9)], [(131072, True), (11141187, True)])) \<and>
   double_mult (double_of_int 10) threshold_09 = Double 5066549580791808 (- 49) \<and>
   \<not> beats threshold_09 (10, 9)"
proof -
  have 1: "double_less (double_of_int 1) (threshold (ex_control\<lparr>threshold := Double 2 0\<rparr>))"
    by (simp add: double_defs)
  have 2: "lzo_compresses ex_host ex_control ex_codecs [] [1, 2, 3, 4, 5, 5, 5] 7
     = Some (Return (1, [(7, 6)], [(131072, True), (11141187, True)]))"
    by (simp add: lzo_compresses_def lzo_compresses_loop.simps ex_host_def ex_control_def
        ex_codecs_def malloc_def double_defs)
  have 3: "\<not> double_less (double_of_int 1) (threshold ex_control)" "4096 \<le> STREAM_BUFSIZE ex_host"
    "probe_cap ex_host 7 = 2560" "STREAM_BUFSIZE ex_host = 10 * 1024 * 1024"
    "threshold ex_control = Double 1 0"
    by (simp_all add: ex_control_def ex_host_def probe_cap_def double_defs)
  have 4: "lzo_compresses ex_host (ex_control\<lparr>threshold := threshold_09\<rparr>) ex_codecs []
       [1, 1, 1, 2, 3, 4, 5, 6, 7, 8] 10
     = Some (Return (0, [(10, 9)], [(131072, True), (11141187, True)]))"
    by (simp add: lzo_compresses_def lzo_compresses_loop.simps ex_host_def ex_control_def
        ex_codecs_def malloc_def double_defs threshold_09_def)
  have 5: "\<not> double_less (double_of_int 1) (threshold (ex_control\<lparr>threshold := threshold_09\<rparr>))"
    "double_mult (double_of_int 10) threshold_09 = Double 5066549580791808 (- 49)"
    by (simp_all add: double_defs threshold_09_def)
  from lz_probe [of "ex_control\<lparr>threshold := Double 2 0\<rparr>" ex_host ex_codecs "[]" "[1, 2, 3, 4, 5, 5, 5]" 7] 1
    lz_probe [of ex_control ex_host ex_codecs "[]" "[1, 2, 3, 4, 5, 5, 5]" 7 1 "[(7, 6)]"
      "[(131072, True), (11141187, True)]"] 2 3
    lz_probe [of "ex_control\<lparr>threshold := threshold_09\<rparr>" ex_host ex_codecs "[]"
      "[1, 1, 1, 2, 3, 4, 5, 6, 7, 8]" 10 0 "[(10, 9)]" "[(131072, True), (11141187, True)]"] 4 5
  show ?thesis by (simp add: beats_def)
qed

section \<open>Compressing a block (stream.c, the *\_compress\_buf functions and compthread)\<close>

text \<open>
  The slot of a compression worker (\<^verbatim>\<open>struct compress_thread\<close> without its semaphores,
  \<^verbatim>\<open>wait_on\<close> and the pointer to the handle).
\<close>

record compress_thread =
  s_buf :: "byte list"
  c_type :: ctype
  s_len :: int
  c_len :: int
  stream :: int

text \<open>Conversion to \<^verbatim>\<open>u32\<close>, as in \<^verbatim>\<open>u32 dlen = cthread->s_len\<close>.\<close>

definition u32 :: "int \<Rightarrow> int" where
  "u32 x = x mod 2 ^ 32"

text \<open>
  Each function returns the slot, changed only when the block was compressed to fewer
  bytes, and the heap.
\<close>

definition zpaq_compress_buf ::
  "host \<Rightarrow> control \<Rightarrow> codecs \<Rightarrow> compress_thread \<Rightarrow> heap \<Rightarrow> (compress_thread \<times> heap) outcome option" where
  "zpaq_compress_buf h ctl cod cthread hp =
     obind (lzo_compresses h ctl cod hp (s_buf cthread) (s_len cthread)) (\<lambda>(ret, tested, hp1).
       if ret = 0 then Some (Return (cthread, hp1))
       else
         (case zpipe_compress cod (take (nat (s_len cthread)) (s_buf cthread)) of
            None \<Rightarrow> Some Fatal
          | Some c_buf \<Rightarrow>
              (let dlen = int (length c_buf) in
               if dlen \<ge> c_len cthread then Some (Return (cthread, hp1))
               else Some (Return (cthread\<lparr>c_len := dlen, s_buf := c_buf, c_type := CTYPE_ZPAQ\<rparr>, hp1)))))"

definition bzip2_compress_buf ::
  "host \<Rightarrow> control \<Rightarrow> codecs \<Rightarrow> compress_thread \<Rightarrow> heap \<Rightarrow> (compress_thread \<times> heap) outcome option" where
  "bzip2_compress_buf h ctl cod cthread hp =
     (let dlen = u32 (s_len cthread) in
      obind (lzo_compresses h ctl cod hp (s_buf cthread) (s_len cthread)) (\<lambda>(ret, tested, hp1).
        if ret = 0 then Some (Return (cthread, hp1))
        else
          (case malloc h hp1 dlen of
             (c_buf_ok, hp2) \<Rightarrow>
               if \<not> c_buf_ok then Some (Return (cthread, hp2))
               else
                 (case BZ2_bzBuffToBuffCompress cod
                         (take (nat (u32 (s_len cthread))) (s_buf cthread)) dlen of
                    (bz_ok, c_buf) \<Rightarrow>
                      if \<not> bz_ok then Some (Return (cthread, hp2))
                      else
                        (let dlen = u32 (int (length c_buf)) in
                         if dlen \<ge> c_len cthread then Some (Return (cthread, hp2))
                         else Some (Return
                           (cthread\<lparr>c_len := dlen, s_buf := c_buf, c_type := CTYPE_BZIP2\<rparr>, hp2)))))))"

definition gzip_compress_buf ::
  "host \<Rightarrow> control \<Rightarrow> codecs \<Rightarrow> compress_thread \<Rightarrow> heap \<Rightarrow> (compress_thread \<times> heap) outcome option" where
  "gzip_compress_buf h ctl cod cthread hp =
     (let dlen = s_len cthread in
      case malloc h hp dlen of
        (c_buf_ok, hp1) \<Rightarrow>
          if \<not> c_buf_ok then Some (Return (cthread, hp1))
          else
            (case compress2 cod (take (nat (s_len cthread)) (s_buf cthread)) dlen of
               (z_ok, c_buf) \<Rightarrow>
                 if \<not> z_ok then Some (Return (cthread, hp1))
                 else
                   (let dlen = int (length c_buf) in
                    if dlen \<ge> c_len cthread then Some (Return (cthread, hp1))
                    else Some (Return
                      (cthread\<lparr>c_len := dlen, s_buf := c_buf, c_type := CTYPE_GZIP\<rparr>, hp1)))))"

definition lzma_compress_buf ::
  "host \<Rightarrow> control \<Rightarrow> codecs \<Rightarrow> compress_thread \<Rightarrow> heap \<Rightarrow> (compress_thread \<times> heap) outcome option" where
  "lzma_compress_buf h ctl cod cthread hp =
     obind (lzo_compresses h ctl cod hp (s_buf cthread) (s_len cthread)) (\<lambda>(ret, tested, hp1).
       if ret = 0 then Some (Return (cthread, hp1))
       else
         (let dlen = s_len cthread in
          case malloc h hp1 dlen of
            (c_buf_ok, hp2) \<Rightarrow>
              if \<not> c_buf_ok then Some (Return (cthread, hp2))
              else
                (case LzmaCompress cod (take (nat (s_len cthread)) (s_buf cthread)) dlen of
                   (lzma_ret, c_buf) \<Rightarrow>
                     if lzma_ret \<noteq> SZ_OK then
                       (if lzma_ret = SZ_ERROR_MEM then bzip2_compress_buf h ctl cod cthread hp2
                        else Some (Return (cthread, hp2)))
                     else
                       (let dlen = int (length c_buf) in
                        if dlen \<ge> c_len cthread then Some (Return (cthread, hp2))
                        else Some (Return
                          (cthread\<lparr>c_len := dlen, s_buf := c_buf, c_type := CTYPE_LZMA\<rparr>, hp2))))))"

definition lzo_compress_buf ::
  "host \<Rightarrow> control \<Rightarrow> codecs \<Rightarrow> compress_thread \<Rightarrow> heap \<Rightarrow> (compress_thread \<times> heap) outcome option" where
  "lzo_compress_buf h ctl cod cthread hp =
     (let in_len = s_len cthread;
          dlen = in_len + in_len div 16 + 64 + 3
      in case malloc h hp (LZO1X_1_MEM_COMPRESS h) of
           (wrkmem, hp1) \<Rightarrow>
             if \<not> wrkmem then Some (Return (cthread, hp1))
             else
               (case malloc h hp1 dlen of
                  (c_buf_ok, hp2) \<Rightarrow>
                    if \<not> c_buf_ok then Some (Return (cthread, hp2))
                    else
                      (let c_buf = lzo1x_1_compress cod (take (nat in_len) (s_buf cthread));
                           dlen = int (length c_buf)
                       in if dlen \<ge> in_len then Some (Return (cthread, hp2))
                          else Some (Return
                            (cthread\<lparr>c_len := dlen, s_buf := c_buf, c_type := CTYPE_LZO\<rparr>, hp2)))))"

text \<open>
  The first part of \<^verbatim>\<open>compthread\<close>, up to the wait for the write turn: the slot is set to
  \<^verbatim>\<open>CTYPE_NONE\<close> with \<^verbatim>\<open>c_len = s_len\<close>, then handed to the back end the flags select.
\<close>

definition compress_stage ::
  "host \<Rightarrow> control \<Rightarrow> codecs \<Rightarrow> compress_thread \<Rightarrow> heap \<Rightarrow> (compress_thread \<times> heap) outcome option" where
  "compress_stage h ctl cod cti0 hp =
     (let cti = cti0\<lparr>c_type := CTYPE_NONE, c_len := s_len cti0\<rparr> in
      if \<not> NO_COMPRESS ctl \<and> c_len cti \<noteq> 0 then
        (if LZMA_COMPRESS ctl then lzma_compress_buf h ctl cod cti hp
         else if LZO_COMPRESS ctl then lzo_compress_buf h ctl cod cti hp
         else if BZIP2_COMPRESS ctl then bzip2_compress_buf h ctl cod cti hp
         else if ZLIB_COMPRESS ctl then gzip_compress_buf h ctl cod cti hp
         else if ZPAQ_COMPRESS ctl then zpaq_compress_buf h ctl cod cti hp
         else Some Fatal)
      else Some (Return (cti, hp)))"

lemma obind_Return_iff:
  "obind m f = Some (Return y) \<longleftrightarrow> (\<exists>x. m = Some (Return x) \<and> f x = Some (Return y))"
  by (cases m) (auto simp: obind_def split: outcome.splits)

subsection \<open>The store-raw policy\<close>

text \<open>
  The policy in the words of the specification. A codec either fails (\<open>None\<close>) or reports
  its output and a compressed length. If it failed, or if the reported length is not
  below the uncompressed length, the block is stored raw: tag \<^verbatim>\<open>CTYPE_NONE\<close>, \<open>c_len = s_len\<close>
  and the original buffer. Otherwise the slot takes the tag of the codec, the reported
  length and the output of the codec.
\<close>

definition raw_slot :: "compress_thread \<Rightarrow> compress_thread" where
  "raw_slot cti = cti\<lparr>c_type := CTYPE_NONE, c_len := s_len cti\<rparr>"

definition store_policy ::
  "(ctype \<times> byte list \<times> int) option \<Rightarrow> compress_thread \<Rightarrow> compress_thread" where
  "store_policy report cti =
     (case report of
        None \<Rightarrow> raw_slot cti
      | Some (t, out, dlen) \<Rightarrow>
          if dlen \<ge> s_len cti then raw_slot cti
          else cti\<lparr>c_type := t, c_len := dlen, s_buf := out\<rparr>)"

text \<open>
  What each back end's codec reports for a block. The codec has failed when the back end
  gives up before the call of its library (the LZO probe answers 0, for LZMA, bzip2 and
  ZPAQ; or the output buffer, or the work memory of LZO, is not allocated) and when the
  library returns an error. Otherwise it reports the bytes the library produced and their
  number (for bzip2, the number as the \<^verbatim>\<open>u32\<close> it is kept in). The one exception is LZMA:
  when \<^verbatim>\<open>LzmaCompress\<close> returns \<^verbatim>\<open>SZ_ERROR_MEM\<close>, the report is that of the bzip2 back end
  for the same block, started on the heap as LZMA left it.

  \<open>probed\<close> is the answer of the probe and the heap after it.
\<close>

definition probed :: "host \<Rightarrow> control \<Rightarrow> codecs \<Rightarrow> compress_thread \<Rightarrow> heap \<Rightarrow> (int \<times> heap) option" where
  "probed h ctl cod cti hp =
     (case lzo_compresses h ctl cod hp (s_buf cti) (s_len cti) of
        Some (Return (ret, tested, hp1)) \<Rightarrow> Some (ret, hp1)
      | _ \<Rightarrow> None)"

definition lzo_report ::
  "host \<Rightarrow> control \<Rightarrow> codecs \<Rightarrow> compress_thread \<Rightarrow> heap \<Rightarrow> (ctype \<times> byte list \<times> int) option" where
  "lzo_report h ctl cod cti hp =
     (if heap_ok h (length hp) (LZO1X_1_MEM_COMPRESS h) \<and>
         heap_ok h (Suc (length hp)) (s_len cti + s_len cti div 16 + 64 + 3)
      then (let out = lzo1x_1_compress cod (take (nat (s_len cti)) (s_buf cti))
            in Some (CTYPE_LZO, out, int (length out)))
      else None)"

definition gzip_report ::
  "host \<Rightarrow> control \<Rightarrow> codecs \<Rightarrow> compress_thread \<Rightarrow> heap \<Rightarrow> (ctype \<times> byte list \<times> int) option" where
  "gzip_report h ctl cod cti hp =
     (if heap_ok h (length hp) (s_len cti)
      then (case compress2 cod (take (nat (s_len cti)) (s_buf cti)) (s_len cti) of
              (z_ok, out) \<Rightarrow> if z_ok then Some (CTYPE_GZIP, out, int (length out)) else None)
      else None)"

definition zpaq_report ::
  "host \<Rightarrow> control \<Rightarrow> codecs \<Rightarrow> compress_thread \<Rightarrow> heap \<Rightarrow> (ctype \<times> byte list \<times> int) option" where
  "zpaq_report h ctl cod cti hp =
     (case probed h ctl cod cti hp of
        None \<Rightarrow> None
      | Some (ret, hp1) \<Rightarrow>
          if ret = 0 then None
          else (case zpipe_compress cod (take (nat (s_len cti)) (s_buf cti)) of
                  None \<Rightarrow> None
                | Some out \<Rightarrow> Some (CTYPE_ZPAQ, out, int (length out))))"

definition bzip2_report ::
  "host \<Rightarrow> control \<Rightarrow> codecs \<Rightarrow> compress_thread \<Rightarrow> heap \<Rightarrow> (ctype \<times> byte list \<times> int) option" where
  "bzip2_report h ctl cod cti hp =
     (case probed h ctl cod cti hp of
        None \<Rightarrow> None
      | Some (ret, hp1) \<Rightarrow>
          if ret = 0 \<or> \<not> heap_ok h (length hp1) (u32 (s_len cti)) then None
          else (case BZ2_bzBuffToBuffCompress cod (take (nat (u32 (s_len cti))) (s_buf cti))
                       (u32 (s_len cti)) of
                  (bz_ok, out) \<Rightarrow>
                    if bz_ok then Some (CTYPE_BZIP2, out, u32 (int (length out))) else None))"

definition lzma_report ::
  "host \<Rightarrow> control \<Rightarrow> codecs \<Rightarrow> compress_thread \<Rightarrow> heap \<Rightarrow> (ctype \<times> byte list \<times> int) option" where
  "lzma_report h ctl cod cti hp =
     (case probed h ctl cod cti hp of
        None \<Rightarrow> None
      | Some (ret, hp1) \<Rightarrow>
          if ret = 0 \<or> \<not> heap_ok h (length hp1) (s_len cti) then None
          else (case LzmaCompress cod (take (nat (s_len cti)) (s_buf cti)) (s_len cti) of
                  (rc, out) \<Rightarrow>
                    if rc = SZ_OK then Some (CTYPE_LZMA, out, int (length out))
                    else if rc = SZ_ERROR_MEM
                      then bzip2_report h ctl cod cti (hp1 @ [(s_len cti, True)])
                    else None))"

definition codec_report ::
  "host \<Rightarrow> control \<Rightarrow> codecs \<Rightarrow> compress_thread \<Rightarrow> heap \<Rightarrow> (ctype \<times> byte list \<times> int) option" where
  "codec_report h ctl cod cti hp =
     (if NO_COMPRESS ctl \<or> s_len cti = 0 then None
      else if LZMA_COMPRESS ctl then lzma_report h ctl cod cti hp
      else if LZO_COMPRESS ctl then lzo_report h ctl cod cti hp
      else if BZIP2_COMPRESS ctl then bzip2_report h ctl cod cti hp
      else if ZLIB_COMPRESS ctl then gzip_report h ctl cod cti hp
      else if ZPAQ_COMPRESS ctl then zpaq_report h ctl cod cti hp
      else None)"

text \<open>Each back end stores by the policy what its codec reports.\<close>

lemma store_policy_raw [simp]:
  "store_policy report (raw_slot cti) = store_policy report cti"
  by (simp add: store_policy_def raw_slot_def split: option.splits)

lemma raw_slot_fixed: "c_type c = CTYPE_NONE \<Longrightarrow> c_len c = s_len c \<Longrightarrow> raw_slot c = c"
  by (simp add: raw_slot_def)

lemma probed_Return:
  "lzo_compresses h ctl cod hp (s_buf cti) (s_len cti) = Some (Return (ret, tested, hp1)) \<Longrightarrow>
     probed h ctl cod cti hp = Some (ret, hp1)"
  by (simp add: probed_def)

lemma zpaq_compress_buf_policy:
  assumes "zpaq_compress_buf h ctl cod c hp = Some (Return (c', hp'))"
    and "c_type c = CTYPE_NONE" "c_len c = s_len c"
  shows "c' = store_policy (zpaq_report h ctl cod c hp) c"
proof -
  from assms(1) obtain ret tested hp1 where
    p: "lzo_compresses h ctl cod hp (s_buf c) (s_len c) = Some (Return (ret, tested, hp1))"
    and rest: "(if ret = 0 then Some (Return (c, hp1))
       else
         (case zpipe_compress cod (take (nat (s_len c)) (s_buf c)) of
            None \<Rightarrow> Some Fatal
          | Some c_buf \<Rightarrow>
              (let dlen = int (length c_buf) in
               if dlen \<ge> c_len c then Some (Return (c, hp1))
               else Some (Return (c\<lparr>c_len := dlen, s_buf := c_buf, c_type := CTYPE_ZPAQ\<rparr>, hp1)))))
       = Some (Return (c', hp'))"
    by (auto simp: zpaq_compress_buf_def obind_Return_iff)
  from rest raw_slot_fixed [OF assms(2,3)] assms(3) show ?thesis
    by (auto simp: zpaq_report_def probed_Return [OF p] store_policy_def Let_def
          split: if_splits option.splits)
qed

lemma bzip2_compress_buf_policy:
  assumes "bzip2_compress_buf h ctl cod c hp = Some (Return (c', hp'))"
    and "c_type c = CTYPE_NONE" "c_len c = s_len c"
  shows "c' = store_policy (bzip2_report h ctl cod c hp) c"
proof -
  from assms(1) obtain ret tested hp1 where
    p: "lzo_compresses h ctl cod hp (s_buf c) (s_len c) = Some (Return (ret, tested, hp1))"
    and rest: "(if ret = 0 then Some (Return (c, hp1))
        else
          (case malloc h hp1 (u32 (s_len c)) of
             (c_buf_ok, hp2) \<Rightarrow>
               if \<not> c_buf_ok then Some (Return (c, hp2))
               else
                 (case BZ2_bzBuffToBuffCompress cod
                         (take (nat (u32 (s_len c))) (s_buf c)) (u32 (s_len c)) of
                    (bz_ok, c_buf) \<Rightarrow>
                      if \<not> bz_ok then Some (Return (c, hp2))
                      else
                        (let dlen = u32 (int (length c_buf)) in
                         if dlen \<ge> c_len c then Some (Return (c, hp2))
                         else Some (Return
                           (c\<lparr>c_len := dlen, s_buf := c_buf, c_type := CTYPE_BZIP2\<rparr>, hp2))))))
       = Some (Return (c', hp'))"
    by (auto simp: bzip2_compress_buf_def obind_Return_iff Let_def)
  from rest raw_slot_fixed [OF assms(2,3)] assms(3) show ?thesis
    by (auto simp: bzip2_report_def probed_Return [OF p] store_policy_def Let_def malloc_def
          split: if_splits prod.splits)
qed

lemma gzip_compress_buf_policy:
  assumes "gzip_compress_buf h ctl cod c hp = Some (Return (c', hp'))"
    and "c_type c = CTYPE_NONE" "c_len c = s_len c"
  shows "c' = store_policy (gzip_report h ctl cod c hp) c"
  using assms(1) raw_slot_fixed [OF assms(2,3)] assms(3)
  by (auto simp: gzip_compress_buf_def gzip_report_def store_policy_def Let_def malloc_def
        split: if_splits prod.splits)

lemma lzo_compress_buf_policy:
  assumes "lzo_compress_buf h ctl cod c hp = Some (Return (c', hp'))"
    and "c_type c = CTYPE_NONE" "c_len c = s_len c"
  shows "c' = store_policy (lzo_report h ctl cod c hp) c"
  using assms(1) raw_slot_fixed [OF assms(2,3)] assms(3)
  by (auto simp: lzo_compress_buf_def lzo_report_def store_policy_def Let_def malloc_def
        split: if_splits prod.splits)

lemma lzma_compress_buf_policy:
  assumes "lzma_compress_buf h ctl cod c hp = Some (Return (c', hp'))"
    and "c_type c = CTYPE_NONE" "c_len c = s_len c"
  shows "c' = store_policy (lzma_report h ctl cod c hp) c"
proof -
  from assms(1) obtain ret tested hp1 where
    p: "lzo_compresses h ctl cod hp (s_buf c) (s_len c) = Some (Return (ret, tested, hp1))"
    and rest: "(if ret = 0 then Some (Return (c, hp1))
       else
         (let dlen = s_len c in
          case malloc h hp1 dlen of
            (c_buf_ok, hp2) \<Rightarrow>
              if \<not> c_buf_ok then Some (Return (c, hp2))
              else
                (case LzmaCompress cod (take (nat (s_len c)) (s_buf c)) dlen of
                   (lzma_ret, c_buf) \<Rightarrow>
                     if lzma_ret \<noteq> SZ_OK then
                       (if lzma_ret = SZ_ERROR_MEM then bzip2_compress_buf h ctl cod c hp2
                        else Some (Return (c, hp2)))
                     else
                       (let dlen = int (length c_buf) in
                        if dlen \<ge> c_len c then Some (Return (c, hp2))
                        else Some (Return
                          (c\<lparr>c_len := dlen, s_buf := c_buf, c_type := CTYPE_LZMA\<rparr>, hp2)))))) =
        Some (Return (c', hp'))"
    by (auto simp: lzma_compress_buf_def obind_Return_iff)
  note raw = raw_slot_fixed [OF assms(2,3)]
  obtain rc out where l: "LzmaCompress cod (take (nat (s_len c)) (s_buf c)) (s_len c) = (rc, out)"
    by (cases "LzmaCompress cod (take (nat (s_len c)) (s_buf c)) (s_len c)")
  show ?thesis
  proof (cases "ret \<noteq> 0 \<and> heap_ok h (length hp1) (s_len c) \<and> rc = SZ_ERROR_MEM")
    case True
    with rest l have "bzip2_compress_buf h ctl cod c (hp1 @ [(s_len c, True)]) = Some (Return (c', hp'))"
      by (simp add: Let_def malloc_def)
    from bzip2_compress_buf_policy [OF this assms(2,3)] True l show ?thesis
      by (simp add: lzma_report_def probed_Return [OF p])
  next
    case False
    with rest l raw assms(3) show ?thesis
      by (auto simp: lzma_report_def probed_Return [OF p] store_policy_def Let_def malloc_def
            split: if_splits)
  qed
qed

lemma compress_stage_policy:
  assumes "compress_stage h ctl cod cti hp = Some (Return (cti', hp'))"
  shows "cti' = store_policy (codec_report h ctl cod cti hp) cti"
proof -
  define c where "c = raw_slot cti"
  have c: "c_type c = CTYPE_NONE" "c_len c = s_len c" "s_len c = s_len cti" "s_buf c = s_buf cti"
    by (simp_all add: c_def raw_slot_def)
  have rep_b: "bzip2_report h ctl cod c hp0 = bzip2_report h ctl cod cti hp0" for hp0
    unfolding bzip2_report_def probed_def c(3,4) by (rule refl)
  have rep_l: "lzma_report h ctl cod c hp = lzma_report h ctl cod cti hp"
    unfolding lzma_report_def probed_def c(3,4) rep_b by (rule refl)
  have rep_o: "lzo_report h ctl cod c hp = lzo_report h ctl cod cti hp"
    "gzip_report h ctl cod c hp = gzip_report h ctl cod cti hp"
    "zpaq_report h ctl cod c hp = zpaq_report h ctl cod cti hp"
    unfolding lzo_report_def gzip_report_def zpaq_report_def probed_def c(3,4) by (rule refl)+
  note rep = rep_b rep_l rep_o
  have pol: "store_policy r c = store_policy r cti" for r
    by (simp add: c_def)
  show ?thesis
  proof (cases "NO_COMPRESS ctl \<or> s_len cti = 0")
    case True
    with assms show ?thesis
      by (auto simp: compress_stage_def codec_report_def store_policy_def raw_slot_def Let_def)
  next
    case go: False
    consider (lzma) "LZMA_COMPRESS ctl"
      | (lzo) "\<not> LZMA_COMPRESS ctl" "LZO_COMPRESS ctl"
      | (bzip2) "\<not> LZMA_COMPRESS ctl" "\<not> LZO_COMPRESS ctl" "BZIP2_COMPRESS ctl"
      | (zlib) "\<not> LZMA_COMPRESS ctl" "\<not> LZO_COMPRESS ctl" "\<not> BZIP2_COMPRESS ctl" "ZLIB_COMPRESS ctl"
      | (zpaq) "\<not> LZMA_COMPRESS ctl" "\<not> LZO_COMPRESS ctl" "\<not> BZIP2_COMPRESS ctl"
          "\<not> ZLIB_COMPRESS ctl" "ZPAQ_COMPRESS ctl"
      | (none) "\<not> LZMA_COMPRESS ctl" "\<not> LZO_COMPRESS ctl" "\<not> BZIP2_COMPRESS ctl"
          "\<not> ZLIB_COMPRESS ctl" "\<not> ZPAQ_COMPRESS ctl"
      by blast
    then show ?thesis
    proof cases
      case lzma
      with assms go have "lzma_compress_buf h ctl cod c hp = Some (Return (cti', hp'))"
        by (simp add: compress_stage_def Let_def c_def raw_slot_def)
      from lzma_compress_buf_policy [OF this c(1,2)] go lzma show ?thesis
        by (simp add: codec_report_def rep pol)
    next
      case lzo
      with assms go have "lzo_compress_buf h ctl cod c hp = Some (Return (cti', hp'))"
        by (simp add: compress_stage_def Let_def c_def raw_slot_def)
      from lzo_compress_buf_policy [OF this c(1,2)] go lzo show ?thesis
        by (simp add: codec_report_def rep pol)
    next
      case bzip2
      with assms go have "bzip2_compress_buf h ctl cod c hp = Some (Return (cti', hp'))"
        by (simp add: compress_stage_def Let_def c_def raw_slot_def)
      from bzip2_compress_buf_policy [OF this c(1,2)] go bzip2 show ?thesis
        by (simp add: codec_report_def rep pol)
    next
      case zlib
      with assms go have "gzip_compress_buf h ctl cod c hp = Some (Return (cti', hp'))"
        by (simp add: compress_stage_def Let_def c_def raw_slot_def)
      from gzip_compress_buf_policy [OF this c(1,2)] go zlib show ?thesis
        by (simp add: codec_report_def rep pol)
    next
      case zpaq
      with assms go have "zpaq_compress_buf h ctl cod c hp = Some (Return (cti', hp'))"
        by (simp add: compress_stage_def Let_def c_def raw_slot_def)
      from zpaq_compress_buf_policy [OF this c(1,2)] go zpaq show ?thesis
        by (simp add: codec_report_def rep pol)
    next
      case none
      with assms go show ?thesis
        by (simp add: compress_stage_def Let_def)
    qed
  qed
qed

lemma store_policy_fields:
  "s_len (store_policy report cti) = s_len cti"
  "stream (store_policy report cti) = stream cti"
  by (simp_all add: store_policy_def raw_slot_def split: option.splits)

lemma compress_stage_keeps:
  assumes "compress_stage h ctl cod cti hp = Some (Return (cti', hp'))"
  shows "s_len cti' = s_len cti" "stream cti' = stream cti"
  using compress_stage_policy [OF assms] by (simp_all add: store_policy_fields)

text \<open>
  Claim C3, as amended. A block that leaves the compression stage is stored by the
  store-raw policy applied to what the codec of the selected back end reports: raw when
  the codec failed or reported a length not below the uncompressed length, and otherwise
  with the tag of the codec, the reported length and the output of the library. The
  codec is the selected one, except that for LZMA failing with \<^verbatim>\<open>SZ_ERROR_MEM\<close> the block
  is handed to bzip2 under the same rule (this is in \<open>lzma_report\<close>). Hence the block
  keeps its uncompressed length and satisfies
  \<open>(c_type = NONE \<and> c_len = u_len) \<or> (c_type \<noteq> NONE \<and> c_len < u_len)\<close> whenever the
  tags of the codecs differ from \<^verbatim>\<open>CTYPE_NONE\<close>, as they do.
\<close>

theorem store_raw_policy:
  assumes "compress_stage h ctl cod cti hp = Some (Return (cti', hp'))"
  shows "cti' = store_policy (codec_report h ctl cod cti hp) cti \<and>
     s_len cti' = s_len cti \<and>
     ((c_type cti' = CTYPE_NONE \<and> c_len cti' = s_len cti \<and> s_buf cti' = s_buf cti) \<or>
      (c_type cti' \<noteq> CTYPE_NONE \<and> c_len cti' < s_len cti))"
proof -
  note p = compress_stage_policy [OF assms]
  have tag: "t \<noteq> CTYPE_NONE" if "codec_report h ctl cod cti hp = Some (t, out, dlen)" for t out dlen
    using that
    by (auto simp: codec_report_def lzma_report_def lzo_report_def bzip2_report_def
          gzip_report_def zpaq_report_def Let_def
          split: if_splits option.splits prod.splits)
  show ?thesis
  proof (cases "codec_report h ctl cod cti hp")
    case None
    with p show ?thesis by (simp add: store_policy_def raw_slot_def)
  next
    case (Some r)
    obtain t out dlen where r: "r = (t, out, dlen)" by (cases r)
    from tag [OF Some [unfolded r]] p Some r show ?thesis
      by (simp add: store_policy_def raw_slot_def)
  qed
qed

text \<open>
  The claim as stated fails: with LZMA selected and \<^verbatim>\<open>LzmaCompress\<close> failing for lack of
  memory, the block is not stored raw but compressed by bzip2.
\<close>

definition cx_codecs :: codecs where
  "cx_codecs = ex_codecs\<lparr>LzmaCompress := (\<lambda>b cap. (SZ_ERROR_MEM, []))\<rparr>"

theorem store_raw_counterexample:
  "LZMA_COMPRESS ex_control \<and>
   LzmaCompress cx_codecs (take (nat 8) [5, 5, 5, 5, 5, 5, 5, 5]) 8 = (SZ_ERROR_MEM, []) \<and>
   compress_stage ex_host ex_control cx_codecs
     \<lparr>s_buf = [5, 5, 5, 5, 5, 5, 5, 5], c_type = CTYPE_NONE, s_len = 8, c_len = 0, stream = 0\<rparr> []
     = Some (Return (\<lparr>s_buf = [5], c_type = CTYPE_BZIP2, s_len = 8, c_len = 1, stream = 0\<rparr>,
         [(131072, True), (11141187, True), (8, True), (131072, True), (11141187, True), (8, True)]))"
  by (simp add: compress_stage_def lzma_compress_buf_def bzip2_compress_buf_def
      lzo_compresses_def lzo_compresses_loop.simps malloc_def u32_def
      ex_host_def ex_control_def ex_codecs_def cx_codecs_def double_defs)

text \<open>
  Two blocks of eight equal bytes: LZMA compresses the first to one byte; for the second
  LZMA fails with \<^verbatim>\<open>SZ_ERROR_MEM\<close> and the report is that of bzip2.
\<close>

theorem store_raw_policy_witness:
  "compress_stage ex_host ex_control ex_codecs
     \<lparr>s_buf = [5, 5, 5, 5, 5, 5, 5, 5], c_type = CTYPE_NONE, s_len = 8, c_len = 0, stream = 0\<rparr> []
     = Some (Return (\<lparr>s_buf = [5], c_type = CTYPE_LZMA, s_len = 8, c_len = 1, stream = 0\<rparr>,
         [(131072, True), (11141187, True), (8, True)])) \<and>
   store_policy (codec_report ex_host ex_control ex_codecs
     \<lparr>s_buf = [5, 5, 5, 5, 5, 5, 5, 5], c_type = CTYPE_NONE, s_len = 8, c_len = 0, stream = 0\<rparr> [])
     \<lparr>s_buf = [5, 5, 5, 5, 5, 5, 5, 5], c_type = CTYPE_NONE, s_len = 8, c_len = 0, stream = 0\<rparr>
     = \<lparr>s_buf = [5], c_type = CTYPE_LZMA, s_len = 8, c_len = 1, stream = 0\<rparr> \<and>
   store_policy (codec_report ex_host ex_control cx_codecs
     \<lparr>s_buf = [5, 5, 5, 5, 5, 5, 5, 5], c_type = CTYPE_NONE, s_len = 8, c_len = 0, stream = 0\<rparr> [])
     \<lparr>s_buf = [5, 5, 5, 5, 5, 5, 5, 5], c_type = CTYPE_NONE, s_len = 8, c_len = 0, stream = 0\<rparr>
     = \<lparr>s_buf = [5], c_type = CTYPE_BZIP2, s_len = 8, c_len = 1, stream = 0\<rparr>"
proof -
  have run: "compress_stage ex_host ex_control ex_codecs
     \<lparr>s_buf = [5, 5, 5, 5, 5, 5, 5, 5], c_type = CTYPE_NONE, s_len = 8, c_len = 0, stream = 0\<rparr> []
     = Some (Return (\<lparr>s_buf = [5], c_type = CTYPE_LZMA, s_len = 8, c_len = 1, stream = 0\<rparr>,
         [(131072, True), (11141187, True), (8, True)]))"
    by (simp add: compress_stage_def lzma_compress_buf_def
        lzo_compresses_def lzo_compresses_loop.simps malloc_def
        ex_host_def ex_control_def ex_codecs_def double_defs)
  have run2: "compress_stage ex_host ex_control cx_codecs
     \<lparr>s_buf = [5, 5, 5, 5, 5, 5, 5, 5], c_type = CTYPE_NONE, s_len = 8, c_len = 0, stream = 0\<rparr> []
     = Some (Return (\<lparr>s_buf = [5], c_type = CTYPE_BZIP2, s_len = 8, c_len = 1, stream = 0\<rparr>,
         [(131072, True), (11141187, True), (8, True), (131072, True), (11141187, True), (8, True)]))"
    by (simp add: compress_stage_def lzma_compress_buf_def bzip2_compress_buf_def
        lzo_compresses_def lzo_compresses_loop.simps malloc_def u32_def
        ex_host_def ex_control_def ex_codecs_def cx_codecs_def double_defs)
  from store_raw_policy [OF run] store_raw_policy [OF run2] run show ?thesis by simp
qed

section \<open>Encryption of a block (util.c, lrz\_crypt)\<close>

text \<open>
  Modelled from the spec: the macro \<^verbatim>\<open>CBC_LEN\<close> is declared outside the sources; it is the
  block length of the cipher, 16 bytes (the spec runs AES "in CBC with ciphertext
  stealing", and \<^verbatim>\<open>xor128\<close> below works on 128 bits).
\<close>

definition CBC_LEN :: nat where
  "CBC_LEN = 16"

text \<open>
  The hash and the block cipher are library code outside the sources and are parameters:
  \<^verbatim>\<open>sha4\<close> gives the digest of its input; \<^verbatim>\<open>aes_setkey_enc\<close> and \<^verbatim>\<open>aes_setkey_dec\<close> give
  their return code for a 128-bit key; \<open>aes_ecb_encrypt\<close> and \<open>aes_ecb_decrypt\<close> transform
  one 16-byte block under the key the context was set up with. \<^verbatim>\<open>HASH_LEN\<close> and
  \<^verbatim>\<open>BLOCKSALT_LEN\<close> are macros declared outside the sources.
\<close>

record crypto_lib =
  HASH_LEN :: nat
  BLOCKSALT_LEN :: nat
  sha4 :: "byte list \<Rightarrow> byte list"
  aes_setkey_enc :: "byte list \<Rightarrow> int"
  aes_setkey_dec :: "byte list \<Rightarrow> int"
  aes_ecb_encrypt :: "byte list \<Rightarrow> byte list \<Rightarrow> byte list"
  aes_ecb_decrypt :: "byte list \<Rightarrow> byte list \<Rightarrow> byte list"

text \<open>The key material in \<^verbatim>\<open>rzip_control\<close>.\<close>

record rzip_control =
  pass_hash :: "byte list"
  hash :: "byte list"

text \<open>
  Bytewise exclusive or; \<^verbatim>\<open>memcpy(dst + off, src, n)\<close> on lists; \<^verbatim>\<open>xor128(a, b)\<close>, which
  changes the first 16 bytes at \<^verbatim>\<open>a\<close>.
\<close>

definition xor_bytes :: "byte list \<Rightarrow> byte list \<Rightarrow> byte list" where
  "xor_bytes a b = map2 (XOR) a b"

definition memcpy :: "byte list \<Rightarrow> nat \<Rightarrow> byte list \<Rightarrow> nat \<Rightarrow> byte list" where
  "memcpy dst off src n = take off dst @ take n src @ drop (off + n) dst"

definition xor128 :: "byte list \<Rightarrow> byte list \<Rightarrow> byte list" where
  "xor128 a b = xor_bytes (take 16 a) (take 16 b) @ drop 16 a"

text \<open>
  Modelled from the spec: \<^verbatim>\<open>aes_crypt_ecb\<close> and \<^verbatim>\<open>aes_crypt_cbc\<close> (aes.c, not among the
  sources). The first transforms the 16 bytes at its input. The second is cipher block
  chaining over \<open>len / 16\<close> blocks: encrypting, each block is xored with the previous
  ciphertext block (first the IV) and then encrypted; decrypting, each block is decrypted
  and xored with the previous ciphertext block. It gives back the updated IV (the last
  ciphertext block) and the output; a length that is no multiple of 16 is refused.
\<close>

datatype aes_mode = AES_DECRYPT | AES_ENCRYPT

definition aes_crypt_ecb :: "crypto_lib \<Rightarrow> byte list \<Rightarrow> aes_mode \<Rightarrow> byte list \<Rightarrow> byte list" where
  "aes_crypt_ecb lib ctx mode input =
     (case mode of AES_ENCRYPT \<Rightarrow> aes_ecb_encrypt lib ctx (take 16 input)
                 | AES_DECRYPT \<Rightarrow> aes_ecb_decrypt lib ctx (take 16 input))"

fun cbc_blocks :: "crypto_lib \<Rightarrow> byte list \<Rightarrow> aes_mode \<Rightarrow> nat \<Rightarrow> byte list \<Rightarrow> byte list
    \<Rightarrow> byte list \<times> byte list" where
  "cbc_blocks lib ctx mode 0 iv input = (iv, [])"
| "cbc_blocks lib ctx AES_DECRYPT (Suc n) iv input =
     (let temp = take 16 input;
          output = xor_bytes (aes_crypt_ecb lib ctx AES_DECRYPT input) iv;
          (iv', rest) = cbc_blocks lib ctx AES_DECRYPT n temp (drop 16 input)
      in (iv', output @ rest))"
| "cbc_blocks lib ctx AES_ENCRYPT (Suc n) iv input =
     (let output = aes_crypt_ecb lib ctx AES_ENCRYPT (xor_bytes (take 16 input) iv);
          (iv', rest) = cbc_blocks lib ctx AES_ENCRYPT n output (drop 16 input)
      in (iv', output @ rest))"

definition aes_crypt_cbc :: "crypto_lib \<Rightarrow> byte list \<Rightarrow> aes_mode \<Rightarrow> int \<Rightarrow> byte list \<Rightarrow> byte list
    \<Rightarrow> byte list \<times> byte list" where
  "aes_crypt_cbc lib ctx mode len iv input =
     (if len mod 16 \<noteq> 0 then (iv, [])
      else cbc_blocks lib ctx mode (nat (len div 16)) (take 16 iv) input)"

text \<open>\<^verbatim>\<open>#define LRZ_DECRYPT (0)\<close> and \<^verbatim>\<open>#define LRZ_ENCRYPT (1)\<close>.\<close>

definition LRZ_DECRYPT :: int where "LRZ_DECRYPT = 0"
definition LRZ_ENCRYPT :: int where "LRZ_ENCRYPT = 1"

text \<open>
  The first part of \<^verbatim>\<open>lrz_crypt\<close>: the key and the IV of a block, from the two hashes and
  the salt. \<^verbatim>\<open>sha4(key, n, key, 0)\<close> writes the digest over the start of its own input.
\<close>

definition derive :: "crypto_lib \<Rightarrow> rzip_control \<Rightarrow> byte list \<Rightarrow> byte list \<times> byte list" where
  "derive lib control salt =
     (let key0 = xor_bytes (take (HASH_LEN lib) (pass_hash control)) (take (HASH_LEN lib) (hash control))
                  @ take (BLOCKSALT_LEN lib) salt;
          key = memcpy key0 0 (sha4 lib key0) (length (sha4 lib key0));
          iv0 = xor_bytes (take (HASH_LEN lib) key) (take (HASH_LEN lib) (pass_hash control))
                  @ take (BLOCKSALT_LEN lib) salt;
          iv = memcpy iv0 0 (sha4 lib iv0) (length (sha4 lib iv0))
      in (key, iv))"

text \<open>
  The two \<^verbatim>\<open>if (M)\<close> blocks of \<^verbatim>\<open>lrz_crypt\<close>, which handle the last \<open>M\<close> bytes of a buffer
  whose length is no multiple of 16: \<open>steal_encrypt\<close> runs after the CBC encryption of
  the first \<open>N\<close> bytes, \<open>steal_decrypt\<close> after the CBC decryption of the first \<open>N - 16\<close>.
\<close>

definition steal_encrypt ::
  "crypto_lib \<Rightarrow> byte list \<Rightarrow> byte list \<Rightarrow> byte list \<Rightarrow> nat \<Rightarrow> nat \<Rightarrow> byte list" where
  "steal_encrypt lib ctx iv buf N M =
     (let tmp0 = memcpy (replicate CBC_LEN 0) 0 (drop N buf) M;
          tmp1 = snd (aes_crypt_cbc lib ctx AES_ENCRYPT (int CBC_LEN) iv tmp0);
          buf = memcpy buf N (drop (N - CBC_LEN) buf) M
      in memcpy buf (N - CBC_LEN) tmp1 CBC_LEN)"

definition steal_decrypt ::
  "crypto_lib \<Rightarrow> byte list \<Rightarrow> byte list \<Rightarrow> byte list \<Rightarrow> nat \<Rightarrow> nat \<Rightarrow> byte list" where
  "steal_decrypt lib ctx iv buf N M =
     (let tmp0 = aes_crypt_ecb lib ctx AES_DECRYPT (drop (N - CBC_LEN) buf);
          tmp1 = memcpy (replicate CBC_LEN 0) 0 (drop N buf) M;
          tmp0 = xor128 tmp0 tmp1;
          buf = memcpy buf N tmp0 M;
          tmp1 = memcpy tmp1 M (drop M tmp0) (CBC_LEN - M);
          buf = memcpy buf (N - CBC_LEN) (aes_crypt_ecb lib ctx AES_DECRYPT tmp1) CBC_LEN
      in memcpy buf (N - CBC_LEN) (xor128 (drop (N - CBC_LEN) buf) iv) CBC_LEN)"

text \<open>
  \<^verbatim>\<open>lrz_crypt(control, buf, len, salt, encrypt)\<close>: the result is the new content of \<^verbatim>\<open>buf\<close>.
  A failing key set-up ends in \<^verbatim>\<open>failure()\<close>, which exits. The calls of \<^verbatim>\<open>mlock\<close>, \<^verbatim>\<open>munlock\<close>
  and the final \<^verbatim>\<open>memset\<close>s do not change \<^verbatim>\<open>buf\<close> and are left out.
\<close>

definition lrz_crypt ::
  "crypto_lib \<Rightarrow> rzip_control \<Rightarrow> byte list \<Rightarrow> int \<Rightarrow> byte list \<Rightarrow> int \<Rightarrow> byte list outcome" where
  "lrz_crypt lib control buf len salt encrypt =
     (case derive lib control salt of
        (key, iv) \<Rightarrow>
          (let M = len mod int CBC_LEN;
               N = len - M
           in if encrypt = LRZ_ENCRYPT then
                (if aes_setkey_enc lib (take 16 key) \<noteq> 0 then Fatal
                 else
                   (case aes_crypt_cbc lib (take 16 key) AES_ENCRYPT N iv buf of
                      (iv, out) \<Rightarrow>
                        (let buf = memcpy buf 0 out (nat N) in
                         if M \<noteq> 0 then Return (steal_encrypt lib (take 16 key) iv buf (nat N) (nat M))
                         else Return buf)))
              else
                (if aes_setkey_dec lib (take 16 key) \<noteq> 0 then Fatal
                 else if M \<noteq> 0 then
                   (case aes_crypt_cbc lib (take 16 key) AES_DECRYPT (N - int CBC_LEN) iv buf of
                      (iv, out) \<Rightarrow>
                        (let buf = memcpy buf 0 out (nat (N - int CBC_LEN))
                         in Return (steal_decrypt lib (take 16 key) iv buf (nat N) (nat M))))
                 else
                   (case aes_crypt_cbc lib (take 16 key) AES_DECRYPT len iv buf of
                      (iv, out) \<Rightarrow> Return (memcpy buf 0 out (nat len))))))"

definition lrz_encrypt :: "crypto_lib \<Rightarrow> rzip_control \<Rightarrow> byte list \<Rightarrow> int \<Rightarrow> byte list \<Rightarrow> byte list outcome" where
  "lrz_encrypt lib control buf len salt = lrz_crypt lib control buf len salt LRZ_ENCRYPT"

definition lrz_decrypt :: "crypto_lib \<Rightarrow> rzip_control \<Rightarrow> byte list \<Rightarrow> int \<Rightarrow> byte list \<Rightarrow> byte list outcome" where
  "lrz_decrypt lib control buf len salt = lrz_crypt lib control buf len salt LRZ_DECRYPT"

text \<open>
  What the proof needs of the cipher: under a key, encryption maps 16-byte blocks to
  16-byte blocks and decryption undoes it.
\<close>

definition block_cipher :: "crypto_lib \<Rightarrow> byte list \<Rightarrow> bool" where
  "block_cipher lib k \<longleftrightarrow>
     (\<forall>b. length b = 16 \<longrightarrow>
        length (aes_ecb_encrypt lib k b) = 16 \<and>
        aes_ecb_decrypt lib k (aes_ecb_encrypt lib k b) = b)"

lemma xor_bytes_length [simp]: "length (xor_bytes a b) = min (length a) (length b)"
  by (simp add: xor_bytes_def)

lemma xor_bytes_Nil [simp]: "xor_bytes [] b = []" "xor_bytes a [] = []"
  by (simp_all add: xor_bytes_def)

lemma xor_bytes_Cons [simp]: "xor_bytes (x # a) (y # b) = (x XOR y) # xor_bytes a b"
  by (simp add: xor_bytes_def)

lemma xor_bytes_append:
  "length a = length c \<Longrightarrow> xor_bytes (a @ b) (c @ d) = xor_bytes a c @ xor_bytes b d"
  by (simp add: xor_bytes_def)

lemma xor_bytes_cancel: "length a \<le> length b \<Longrightarrow> xor_bytes (xor_bytes a b) b = a"
proof (induction a arbitrary: b)
  case Nil
  then show ?case by simp
next
  case (Cons x a)
  then obtain y b' where b: "b = y # b'" by (cases b) auto
  with Cons show ?case by (simp add: bit.xor_cancel_right xor.assoc)
qed

lemma xor_bytes_zero: "xor_bytes a (replicate n 0) = take n a"
proof (induction a arbitrary: n)
  case Nil
  then show ?case by simp
next
  case (Cons x a)
  then show ?case by (cases n) simp_all
qed

lemma xor_bytes_zero_left: "xor_bytes (replicate n 0) a = take n a"
proof (induction a arbitrary: n)
  case Nil
  then show ?case by simp
next
  case (Cons x a)
  then show ?case by (cases n) simp_all
qed

lemma cbc_blocks_prefix:
  "16 * n \<le> length A \<Longrightarrow> cbc_blocks lib k mode n iv (A @ X) = cbc_blocks lib k mode n iv A"
proof (induction n arbitrary: iv A)
  case 0
  then show ?case by simp
next
  case (Suc n)
  then have "16 * n \<le> length (drop 16 A)" by simp
  from Suc.IH [OF this] Suc.prems show ?case
    by (cases mode) (simp_all add: aes_crypt_ecb_def)
qed

lemma cbc_encrypt_length:
  assumes "block_cipher lib k"
  shows "length iv = 16 \<Longrightarrow> 16 * n \<le> length input \<Longrightarrow>
     length (fst (cbc_blocks lib k AES_ENCRYPT n iv input)) = 16 \<and>
     length (snd (cbc_blocks lib k AES_ENCRYPT n iv input)) = 16 * n"
proof (induction n arbitrary: iv input)
  case 0
  then show ?case by simp
next
  case (Suc n)
  define c where "c = aes_ecb_encrypt lib k (xor_bytes (take 16 input) iv)"
  have c: "length c = 16"
    using assms Suc.prems by (simp add: c_def block_cipher_def)
  have "16 * n \<le> length (drop 16 input)" using Suc.prems by simp
  from Suc.IH [OF c this] c Suc.prems show ?case
    by (auto simp: aes_crypt_ecb_def c_def [symmetric] split: prod.splits)
qed

lemma cbc_encrypt_snoc:
  "cbc_blocks lib k AES_ENCRYPT (Suc n) iv input =
     (case cbc_blocks lib k AES_ENCRYPT n iv input of
        (ivn, outn) \<Rightarrow>
          (let c = aes_crypt_ecb lib k AES_ENCRYPT (xor_bytes (take 16 (drop (16 * n) input)) ivn)
           in (c, outn @ c)))"
proof (induction n arbitrary: iv input)
  case 0
  then show ?case by simp
next
  case (Suc n)
  show ?case
    apply (subst cbc_blocks.simps(3))
    apply (subst Suc.IH)
    apply (simp add: Let_def split: prod.splits add: add.commute)
    done
qed

lemma cbc_roundtrip:
  assumes "block_cipher lib k"
  shows "length iv = 16 \<Longrightarrow> 16 * n \<le> length input \<Longrightarrow>
     cbc_blocks lib k AES_DECRYPT n iv (snd (cbc_blocks lib k AES_ENCRYPT n iv input))
       = (fst (cbc_blocks lib k AES_ENCRYPT n iv input), take (16 * n) input)"
proof (induction n arbitrary: iv input)
  case 0
  then show ?case by simp
next
  case (Suc n)
  define p where "p = xor_bytes (take 16 input) iv"
  define c where "c = aes_ecb_encrypt lib k p"
  have p: "length p = 16" using Suc.prems by (simp add: p_def)
  have c: "length c = 16" "aes_ecb_decrypt lib k c = p"
    using assms p by (simp_all add: c_def block_cipher_def)
  have rest: "16 * n \<le> length (drop 16 input)" using Suc.prems by simp
  obtain ivn outn where e: "cbc_blocks lib k AES_ENCRYPT n c (drop 16 input) = (ivn, outn)"
    by (cases "cbc_blocks lib k AES_ENCRYPT n c (drop 16 input)")
  have d: "cbc_blocks lib k AES_DECRYPT n c outn = (ivn, take (16 * n) (drop 16 input))"
    using Suc.IH [OF c(1) rest] e by simp
  have unmask: "xor_bytes p iv = take 16 input"
    unfolding p_def using Suc.prems by (simp add: xor_bytes_cancel)
  have t: "take 16 input @ take (16 * n) (drop 16 input) = take (16 + 16 * n) input"
    by (simp add: take_add)
  show ?case
    using e d c unmask p
    by (simp add: aes_crypt_ecb_def p_def [symmetric] c_def [symmetric] t Let_def del: take_add)
qed


lemma steal_encrypt_eq:
  assumes bc: "block_cipher lib k"
    and CA: "length CA = N - 16" "16 \<le> N" and Cn: "length Cn = 16"
    and T: "length T = M" "0 < M" "M < 16"
  shows "steal_encrypt lib k Cn (CA @ Cn @ T) N M =
     CA @ aes_ecb_encrypt lib k (xor_bytes (T @ replicate (16 - M) 0) Cn) @ take M Cn"
proof -
  have N: "N = length CA + 16" using CA by simp
  have tmp0: "memcpy (replicate 16 0) 0 (drop N (CA @ Cn @ T)) M = T @ replicate (16 - M) 0"
    using Cn T by (simp add: memcpy_def N)
  have tmp1: "snd (aes_crypt_cbc lib k AES_ENCRYPT 16 Cn (T @ replicate (16 - M) 0))
      = aes_ecb_encrypt lib k (xor_bytes (T @ replicate (16 - M) 0) Cn)"
    using Cn T by (simp add: aes_crypt_cbc_def aes_crypt_ecb_def Let_def)
  have buf: "memcpy (CA @ Cn @ T) N (drop (N - 16) (CA @ Cn @ T)) M = CA @ Cn @ take M Cn"
    using Cn T by (simp add: memcpy_def N)
  have fin: "memcpy (CA @ Cn @ take M Cn) (N - 16) X 16 = CA @ take 16 X @ take M Cn" for X
    using Cn T by (simp add: memcpy_def N)
  show ?thesis
    unfolding steal_encrypt_def CBC_LEN_def Let_def of_nat_numeral tmp0 tmp1 buf fin
    using bc Cn T by (simp add: block_cipher_def)
qed

lemma steal_decrypt_eq:
  assumes bc: "block_cipher lib k"
    and A: "length A = N - 16" "16 \<le> N" and P: "length P = 16" and ivA: "length ivA = 16"
    and T: "length T = M" "0 < M" "M < 16"
    and Cn: "Cn = aes_ecb_encrypt lib k (xor_bytes P ivA)"
    and E: "E = aes_ecb_encrypt lib k (xor_bytes (T @ replicate (16 - M) 0) Cn)"
  shows "steal_decrypt lib k ivA (A @ E @ take M Cn) N M = A @ P @ T"
proof -
  have N: "N = length A + 16" using A by simp
  have lCn: "length Cn = 16" "aes_ecb_decrypt lib k Cn = xor_bytes P ivA"
    using bc P ivA by (simp_all add: Cn block_cipher_def)
  have lE: "length E = 16" "aes_ecb_decrypt lib k E = xor_bytes (T @ replicate (16 - M) 0) Cn"
    using bc T lCn by (simp_all add: E block_cipher_def)
  have tmp0: "aes_crypt_ecb lib k AES_DECRYPT (drop (N - 16) (A @ E @ take M Cn))
      = xor_bytes (T @ replicate (16 - M) 0) Cn"
    using lE by (simp add: aes_crypt_ecb_def N)
  have tmp1: "memcpy (replicate 16 0) 0 (drop N (A @ E @ take M Cn)) M
      = take M Cn @ replicate (16 - M) 0"
    using lE lCn T by (simp add: memcpy_def N)
  have x: "xor_bytes (T @ replicate (16 - M) 0) Cn = xor_bytes T (take M Cn) @ drop M Cn"
    using xor_bytes_append [of T "take M Cn" "replicate (16 - M) 0" "drop M Cn"] T lCn
    by (simp add: xor_bytes_zero_left)
  have tmp0': "xor128 (xor_bytes (T @ replicate (16 - M) 0) Cn) (take M Cn @ replicate (16 - M) 0)
      = T @ drop M Cn"
    unfolding x xor128_def
    using xor_bytes_append [of "xor_bytes T (take M Cn)" "take M Cn" "drop M Cn" "replicate (16 - M) 0"]
      T lCn
    by (simp add: xor_bytes_zero xor_bytes_cancel)
  have buf2: "memcpy (A @ E @ take M Cn) N (T @ drop M Cn) M = A @ E @ T"
    using lE lCn T by (simp add: memcpy_def N)
  have tmp1': "memcpy (take M Cn @ replicate (16 - M) 0) M (drop M (T @ drop M Cn)) (16 - M) = Cn"
    using lCn T by (simp add: memcpy_def)
  have blk: "aes_crypt_ecb lib k AES_DECRYPT Cn = xor_bytes P ivA"
    using lCn by (simp add: aes_crypt_ecb_def)
  have buf3: "memcpy (A @ E @ T) (N - 16) (xor_bytes P ivA) 16 = A @ xor_bytes P ivA @ T"
    using lE P ivA by (simp add: memcpy_def N)
  have x2: "xor128 (drop (N - 16) (A @ xor_bytes P ivA @ T)) ivA = P @ T"
    using P ivA by (simp add: xor128_def N xor_bytes_cancel)
  have buf4: "memcpy (A @ xor_bytes P ivA @ T) (N - 16) (P @ T) 16 = A @ P @ T"
    using P ivA by (simp add: memcpy_def N)
  show ?thesis
    unfolding steal_decrypt_def CBC_LEN_def Let_def tmp0 tmp1 tmp0' buf2 tmp1' blk buf3 x2 buf4
    by (rule refl)
qed


lemma derive_iv_length:
  assumes "\<And>x. 16 \<le> length (sha4 lib x)" and "derive lib control salt = (key, iv)"
  shows "16 \<le> length iv"
proof -
  from assms(2) have "iv = snd (derive lib control salt)" by simp
  then obtain iv0 where "iv = memcpy iv0 0 (sha4 lib iv0) (length (sha4 lib iv0))"
    unfolding derive_def Let_def snd_conv by blast
  then have "length iv \<ge> length (sha4 lib iv0)" by (simp add: memcpy_def)
  with assms(1) [of iv0] show ?thesis by simp
qed

lemma lrz_crypt_whole_blocks:
  assumes bc: "block_cipher lib (take 16 key)"
    and d: "derive lib control salt = (key, iv)" and iv: "16 \<le> length iv"
    and ok: "aes_setkey_enc lib (take 16 key) = 0" "aes_setkey_dec lib (take 16 key) = 0"
    and L: "length buf = 16 * n"
  shows "\<exists>c. lrz_crypt lib control buf (int (length buf)) salt LRZ_ENCRYPT = Return c \<and>
     length c = length buf \<and>
     lrz_crypt lib control c (int (length buf)) salt LRZ_DECRYPT = Return buf"
proof -
  obtain iv1 out where e: "cbc_blocks lib (take 16 key) AES_ENCRYPT n (take 16 iv) buf = (iv1, out)"
    by (cases "cbc_blocks lib (take 16 key) AES_ENCRYPT n (take 16 iv) buf")
  have out: "length out = 16 * n"
    using cbc_encrypt_length [OF bc, of "take 16 iv" n buf] iv L e by simp
  have dq: "cbc_blocks lib (take 16 key) AES_DECRYPT n (take 16 iv) out = (iv1, buf)"
    using cbc_roundtrip [OF bc, of "take 16 iv" n buf] iv L e by simp
  have M: "int (length buf) mod int CBC_LEN = 0" "int (length buf) - 0 = int (16 * n)"
    "nat (int (16 * n) div 16) = n" "int (16 * n) mod 16 = 0"
    "int (length buf) mod 16 = 0" "nat (int (length buf) div 16) = n"
    by (simp_all add: L CBC_LEN_def)
  have b: "memcpy buf 0 out (16 * n) = out" "memcpy out 0 buf (length buf) = buf"
    using out L by (simp_all add: memcpy_def)
  have dec_ne: "(LRZ_DECRYPT = LRZ_ENCRYPT) = False"
    by (simp add: LRZ_DECRYPT_def LRZ_ENCRYPT_def)
  have ar: True by simp
  have 1: "lrz_crypt lib control buf (int (length buf)) salt LRZ_ENCRYPT = Return out"
    unfolding lrz_crypt_def d prod.case Let_def M aes_crypt_cbc_def nat_int e b
      simp_thms if_True if_False ok
    using ar by simp
  have 2: "lrz_crypt lib control out (int (length buf)) salt LRZ_DECRYPT = Return buf"
    unfolding lrz_crypt_def d prod.case Let_def M aes_crypt_cbc_def nat_int dq b
      simp_thms if_True if_False ok dec_ne
    using ar by simp
  from 1 2 out L show ?thesis by simp
qed

lemma lrz_crypt_stolen:
  assumes bc: "block_cipher lib (take 16 key)"
    and d: "derive lib control salt = (key, iv)" and iv: "16 \<le> length iv"
    and ok: "aes_setkey_enc lib (take 16 key) = 0" "aes_setkey_dec lib (take 16 key) = 0"
    and L: "length buf = 16 * m + 16 + M" and M: "0 < M" "M < 16"
  shows "\<exists>c. lrz_crypt lib control buf (int (length buf)) salt LRZ_ENCRYPT = Return c \<and>
     length c = length buf \<and>
     lrz_crypt lib control c (int (length buf)) salt LRZ_DECRYPT = Return buf"
proof -
  let ?k = "take 16 key"
  define A where "A = take (16 * m) buf"
  define P where "P = take 16 (drop (16 * m) buf)"
  define T where "T = drop (16 * m + 16) buf"
  have "take 16 (drop (16 * m) buf) @ drop 16 (drop (16 * m) buf) = drop (16 * m) buf"
    by (rule append_take_drop_id)
  then have "P @ T = drop (16 * m) buf" by (simp add: P_def T_def add.commute)
  then have buf: "buf = A @ P @ T" by (simp add: A_def)
  have lens: "length A = 16 * m" "length P = 16" "length T = M"
    using L by (simp_all add: A_def P_def T_def)
  obtain ivA CA where e: "cbc_blocks lib ?k AES_ENCRYPT m (take 16 iv) A = (ivA, CA)"
    by (cases "cbc_blocks lib ?k AES_ENCRYPT m (take 16 iv) A")
  have lCA: "length ivA = 16" "length CA = 16 * m"
    using cbc_encrypt_length [OF bc, of "take 16 iv" m A] iv lens e by simp_all
  define Cn where "Cn = aes_ecb_encrypt lib ?k (xor_bytes P ivA)"
  define E where "E = aes_ecb_encrypt lib ?k (xor_bytes (T @ replicate (16 - M) 0) Cn)"
  have lCn: "length Cn = 16" using bc lens lCA by (simp add: Cn_def block_cipher_def)
  have lE: "length E = 16" using bc lens lCn M by (simp add: E_def block_cipher_def)
  have full: "cbc_blocks lib ?k AES_ENCRYPT (Suc m) (take 16 iv) buf = (Cn, CA @ Cn)"
    unfolding cbc_encrypt_snoc buf
    using cbc_blocks_prefix [of m A lib ?k AES_ENCRYPT "take 16 iv" "P @ T"] lens e lCA
    by (simp add: Let_def aes_crypt_ecb_def Cn_def)
  have "(16 * Suc m + M) mod 16 = M mod 16" by (rule mod_mult_self4)
  then have "(16 * m + 16 + M) mod 16 = M" using M(2) by (simp add: add.commute)
  then have Mi: "int (length buf) mod int CBC_LEN = int M"
    unfolding L CBC_LEN_def using zmod_int [of "16 * m + 16 + M" 16] by simp
  have N: "int (length buf) - int M = int (16 * Suc m)" unfolding L by simp
  have ar: "int (16 * Suc m) mod 16 = 0" "nat (int (16 * Suc m) div 16) = Suc m"
    "(int (16 * Suc m) - int CBC_LEN) mod 16 = 0"
    "nat ((int (16 * Suc m) - int CBC_LEN) div 16) = m"
    "nat (int (16 * Suc m) - int CBC_LEN) = 16 * m" "int M \<noteq> 0"
    using M(1) by (simp_all add: CBC_LEN_def)
  have b1: "memcpy buf 0 (CA @ Cn) (16 * Suc m) = CA @ Cn @ T"
    using lCA lCn by (simp add: memcpy_def T_def add.commute)
  have dec_ne: "(LRZ_DECRYPT = LRZ_ENCRYPT) = False"
    by (simp add: LRZ_DECRYPT_def LRZ_ENCRYPT_def)
  define c where "c = CA @ E @ take M Cn"
  have se: "steal_encrypt lib ?k Cn (CA @ Cn @ T) (16 * Suc m) M = c"
    unfolding c_def E_def
    by (rule steal_encrypt_eq [OF bc _ _ lCn lens(3) M]) (simp_all add: lCA)
  have 1: "lrz_crypt lib control buf (int (length buf)) salt LRZ_ENCRYPT = Return c"
    unfolding lrz_crypt_def d prod.case Let_def Mi N aes_crypt_cbc_def ar nat_int full b1 se
      simp_thms if_True if_False ok
    using ar by simp
  have lc: "length c = length buf"
    using lCA lE lCn M by (simp add: c_def L)
  have dq: "cbc_blocks lib ?k AES_DECRYPT m (take 16 iv) c = (ivA, A)"
    unfolding c_def
    using cbc_blocks_prefix [of m CA lib ?k AES_DECRYPT "take 16 iv" "E @ take M Cn"]
      cbc_roundtrip [OF bc, of "take 16 iv" m A] iv lens e lCA
    by simp
  have b2: "memcpy c 0 A (16 * m) = A @ E @ take M Cn"
    using lCA lens by (simp add: memcpy_def c_def)
  have sd: "steal_decrypt lib ?k ivA (A @ E @ take M Cn) (16 * Suc m) M = buf"
    unfolding buf
    by (rule steal_decrypt_eq [OF bc _ _ lens(2) lCA(1) lens(3) M Cn_def E_def])
      (simp_all add: lens)
  have 2: "lrz_crypt lib control c (int (length buf)) salt LRZ_DECRYPT = Return buf"
    unfolding lrz_crypt_def d prod.case Let_def Mi N aes_crypt_cbc_def ar nat_int dq b2 sd
      simp_thms if_True if_False ok dec_ne
    using ar by simp
  from 1 2 lc show ?thesis by blast
qed

text \<open>
  Claim C9. For a cipher whose decryption undoes its encryption, key set-ups that
  succeed and a digest of at least 16 bytes: for every key material, salt and buffer of
  \<open>len \<ge> 16\<close> bytes, \<open>lrz_encrypt\<close> returns a buffer of the same length, and \<open>lrz_decrypt\<close>
  with the same key material and salt turns it back into the original.
\<close>

theorem encrypt_roundtrip:
  assumes cipher: "\<And>k. block_cipher lib k"
    and keys: "\<And>k. aes_setkey_enc lib k = 0 \<and> aes_setkey_dec lib k = 0"
    and digest: "\<And>x. 16 \<le> length (sha4 lib x)"
    and len: "16 \<le> len" "length buf = nat len"
  shows "\<exists>c. lrz_encrypt lib control buf len salt = Return c \<and> length c = length buf \<and>
     lrz_decrypt lib control c len salt = Return buf"
proof -
  obtain key iv where d: "derive lib control salt = (key, iv)"
    by (cases "derive lib control salt")
  have iv: "16 \<le> length iv" by (rule derive_iv_length [OF digest d])
  have l: "len = int (length buf)" using len by simp
  define M where "M = length buf mod 16"
  define n where "n = length buf div 16"
  have lb: "16 \<le> length buf" using len by simp
  have n: "length buf = 16 * n + M" "M < 16"
    by (simp_all add: M_def n_def)
  have n1: "1 \<le> n"
    using lb unfolding n_def by (simp add: Suc_le_eq div_greater_zero_iff)
  show ?thesis
  proof (cases "M = 0")
    case True
    with n have "length buf = 16 * n" by simp
    from lrz_crypt_whole_blocks [OF cipher d iv conjunct1 [OF keys] conjunct2 [OF keys] this]
    show ?thesis unfolding lrz_encrypt_def lrz_decrypt_def l .
  next
    case False
    from n1 obtain m where m: "n = Suc m" by (cases n) auto
    with n have L: "length buf = 16 * m + 16 + M" by simp
    from False have "0 < M" by simp
    from lrz_crypt_stolen [OF cipher d iv conjunct1 [OF keys] conjunct2 [OF keys] L this n(2)]
    show ?thesis unfolding lrz_encrypt_def lrz_decrypt_def l .
  qed
qed

text \<open>
  A toy library for a concrete run: the "cipher" reverses a block and adds the key
  length to every byte.
\<close>

definition toy_lib :: crypto_lib where
  "toy_lib = \<lparr>HASH_LEN = 16, BLOCKSALT_LEN = 2,
     sha4 = (\<lambda>b. take 16 (map (\<lambda>x. x + 1) b @ replicate 16 7)),
     aes_setkey_enc = (\<lambda>k. 0), aes_setkey_dec = (\<lambda>k. 0),
     aes_ecb_encrypt = (\<lambda>k b. rev (map (\<lambda>x. x + of_nat (length k)) b)),
     aes_ecb_decrypt = (\<lambda>k b. map (\<lambda>x. x - of_nat (length k)) (rev b))\<rparr>"

definition toy_control :: rzip_control where
  "toy_control = \<lparr>pass_hash = map of_nat [0 ..< 16], hash = map of_nat [100 ..< 116]\<rparr>"


lemma toy_block_cipher: "block_cipher toy_lib k"
  by (simp add: block_cipher_def toy_lib_def o_def)

theorem encrypt_roundtrip_witness:
  "lrz_encrypt toy_lib toy_control
       [1, 2, 3, 4, 5, 6, 7, 8, 9, 10, 11, 12, 13, 14, 15, 16, 17, 18, 19] 19 [1, 2]
     = Return [135, 135, 139, 131, 143, 143, 139, 131, 135, 135, 155, 131, 159, 172,
               169, 114, 115, 139, 143] \<and>
   lrz_decrypt toy_lib toy_control
       [135, 135, 139, 131, 143, 143, 139, 131, 135, 135, 155, 131, 159, 172,
        169, 114, 115, 139, 143] 19 [1, 2]
     = Return [1, 2, 3, 4, 5, 6, 7, 8, 9, 10, 11, 12, 13, 14, 15, 16, 17, 18, 19]"
proof -
  have run: "lrz_encrypt toy_lib toy_control
       [1, 2, 3, 4, 5, 6, 7, 8, 9, 10, 11, 12, 13, 14, 15, 16, 17, 18, 19] 19 [1, 2]
     = Return [135, 135, 139, 131, 143, 143, 139, 131, 135, 135, 155, 131, 159, 172,
               169, 114, 115, 139, 143]"
    by code_simp
  have keys: "aes_setkey_enc toy_lib k = 0 \<and> aes_setkey_dec toy_lib k = 0" for k
    by (simp add: toy_lib_def)
  have digest: "16 \<le> length (sha4 toy_lib x)" for x
    by (simp add: toy_lib_def)
  have len: "(16 :: int) \<le> 19"
    "length [1, 2, 3, 4, 5, 6, 7, 8, 9, 10, 11, 12, 13, 14, 15, 16, 17, 18, 19 :: byte] = nat 19"
    by simp_all
  from encrypt_roundtrip [of toy_lib 19 _ toy_control "[1, 2]", OF toy_block_cipher keys digest len]
    run
  show ?thesis by auto
qed


section \<open>The stream writer\<close>

subsection \<open>The file behind the descriptor\<close>

text \<open>
  The engine works on one file descriptor and on the process heap. Both are gathered in the
  record \<open>world\<close>: \<open>fbytes\<close> is the content of the file, \<open>foff\<close> the file offset of the
  descriptor and \<open>heap\<close> the log of the allocation requests. Two further fields are ghost
  state that the C code does not have: \<open>wlog\<close> lists every \<^verbatim>\<open>write(2)\<close> call made, with the
  file offset it started at and the bytes it transferred, and \<open>rlog\<close> lists the record headers
  written, each as (stream, offset relative to \<^verbatim>\<open>initial_pos\<close>, \<open>u_len\<close>). The theorems on
  the layout of the archive are stated over these two logs.

  The file is an ideal one: \<^verbatim>\<open>write\<close> transfers all the bytes it is given and extends the file
  (filling a gap with zero bytes), \<^verbatim>\<open>read\<close> returns what lies between the offset and the end
  of the file, and \<^verbatim>\<open>lseek\<close> fails only for a negative offset. The wrappers
  \<^verbatim>\<open>write_buf\<close>, \<^verbatim>\<open>write_u8\<close> and \<^verbatim>\<open>write_i64\<close> are those of \<^verbatim>\<open>stream.c\<close>; an \<^verbatim>\<open>i64\<close> is stored
  in the byte order of the host, taken little-endian here.
\<close>

record world =
  fbytes :: "byte list"
  foff :: int
  heap :: heap
  wlog :: "(int \<times> byte list) list"
  rlog :: "(int \<times> int \<times> int) list"

definition file_write :: "byte list \<Rightarrow> nat \<Rightarrow> byte list \<Rightarrow> byte list" where
  "file_write bs off d =
     (if off \<le> length bs then take off bs @ d @ drop (off + length d) bs
      else bs @ replicate (off - length bs) 0 @ d)"

definition posix_write :: "world \<Rightarrow> byte list \<Rightarrow> int \<Rightarrow> int \<times> world" where
  "posix_write w buf count =
     (let d = take (nat count) buf
      in (int (length d),
          w\<lparr>fbytes := file_write (fbytes w) (nat (foff w)) d,
            foff := foff w + int (length d),
            wlog := wlog w @ [(foff w, d)]\<rparr>))"

definition posix_read :: "world \<Rightarrow> int \<Rightarrow> int \<times> byte list \<times> world" where
  "posix_read w count =
     (let d = take (nat count) (drop (nat (foff w)) (fbytes w))
      in (int (length d), d, w\<lparr>foff := foff w + int (length d)\<rparr>))"

definition lseek_set :: "world \<Rightarrow> int \<Rightarrow> int \<times> world" where
  "lseek_set w offset = (if offset < 0 then (-1, w) else (offset, w\<lparr>foff := offset\<rparr>))"

definition lseek_cur :: "world \<Rightarrow> int" where
  "lseek_cur w = foff w"

definition write_buf :: "world \<Rightarrow> byte list \<Rightarrow> int \<Rightarrow> (int \<times> world) option" where
  "write_buf w p len =
     (case write_1g posix_write w p len of
        None \<Rightarrow> None
      | Some (ret, w') \<Rightarrow>
          if ret = -1 then Some (-1, w')
          else if ret \<noteq> len then Some (-1, w')
          else Some (0, w'))"

definition le64 :: "int \<Rightarrow> byte list" where
  "le64 v = map (\<lambda>k. word_of_int ((v mod 2 ^ 64) div 256 ^ k)) [0 ..< 8]"

definition write_u8 :: "world \<Rightarrow> byte \<Rightarrow> (int \<times> world) option" where
  "write_u8 w v = write_buf w [v] 1"

definition write_i64 :: "world \<Rightarrow> int \<Rightarrow> (int \<times> world) option" where
  "write_i64 w v =
     (case write_buf w (le64 v) 8 of
        None \<Rightarrow> None
      | Some (r, w') \<Rightarrow> if r \<noteq> 0 then Some (-1, w') else Some (0, w'))"

definition w0 :: world where
  "w0 = \<lparr>fbytes = [], foff = 0, heap = [], wlog = [], rlog = []\<rparr>"


subsection \<open>The handle\<close>

text \<open>
  \<^verbatim>\<open>struct stream\<close> and \<^verbatim>\<open>struct stream_info\<close>. The array \<^verbatim>\<open>sinfo->s\<close> is the list
  \<open>streams\<close>; the descriptor \<^verbatim>\<open>fd\<close> is the world. A buffer is the list of the bytes copied into
  it so far. \<open>cdiv\<close> is the division of C, which truncates towards zero.
\<close>

record stream =
  buf :: "byte list"
  buflen :: int
  bufp :: int
  last_head :: int
  eos :: int
  base_thread :: int
  uthread_no :: int
  unext_thread :: int

record stream_info =
  streams :: "stream list"
  num_streams :: int
  bufsize :: int
  cur_pos :: int
  initial_pos :: int
  total_read :: int
  thread_no :: int

definition calloc_stream :: stream where
  "calloc_stream = \<lparr>buf = [], buflen = 0, bufp = 0, last_head = 0, eos = 0, base_thread = 0,
     uthread_no = 0, unext_thread = 0\<rparr>"

definition upd_stream :: "stream_info \<Rightarrow> int \<Rightarrow> (stream \<Rightarrow> stream) \<Rightarrow> stream_info" where
  "upd_stream sinfo i f = sinfo\<lparr>streams := (streams sinfo)[nat i := f (streams sinfo ! nat i)]\<rparr>"

definition the_stream :: "stream_info \<Rightarrow> int \<Rightarrow> stream" where
  "the_stream sinfo i = streams sinfo ! nat i"

definition cdiv :: "int \<Rightarrow> int \<Rightarrow> int" where
  "cdiv a b = sgn a * sgn b * (\<bar>a\<bar> div \<bar>b\<bar>)"

definition seekto :: "world \<Rightarrow> stream_info \<Rightarrow> int \<Rightarrow> int \<times> world" where
  "seekto w sinfo pos =
     (let spos = pos + initial_pos sinfo
      in case lseek_set w spos of (r, w') \<Rightarrow> if r \<noteq> spos then (-1, w') else (0, w'))"

text \<open>
  \<open>or_fatal\<close> is the pattern \<^verbatim>\<open>if (unlikely(call)) fatal(...)\<close>, \<open>orelse\<close> is the short-circuit
  \<^verbatim>\<open>||\<close> of two calls, and \<open>ignored\<close> is a call whose result is dropped.
\<close>

definition or_fatal :: "(int \<times> world) option \<Rightarrow> (world \<Rightarrow> 'a outcome option) \<Rightarrow> 'a outcome option" where
  "or_fatal m k = (case m of None \<Rightarrow> None | Some (r, w) \<Rightarrow> if r \<noteq> 0 then Some Fatal else k w)"

definition orelse :: "(int \<times> world) option \<Rightarrow> (world \<Rightarrow> (int \<times> world) option) \<Rightarrow> (int \<times> world) option" where
  "orelse m k =
     (case m of
        None \<Rightarrow> None
      | Some (r, w) \<Rightarrow>
          if r \<noteq> 0 then Some (1, w)
          else (case k w of None \<Rightarrow> None | Some (r', w') \<Rightarrow> Some (if r' \<noteq> 0 then 1 else 0, w')))"

definition ignored :: "(int \<times> world) option \<Rightarrow> (world \<Rightarrow> 'a option) \<Rightarrow> 'a option" where
  "ignored m k = (case m of None \<Rightarrow> None | Some (r, w) \<Rightarrow> k w)"

subsection \<open>Writing records\<close>

text \<open>
  \<^verbatim>\<open>compthread\<close> compresses the block handed to it and appends one record: it patches the
  \<open>next\<close> field that \<^verbatim>\<open>last_head\<close> of the stream points at with \<^verbatim>\<open>cur_pos\<close>, moves
  \<^verbatim>\<open>last_head\<close> to the \<open>next\<close> field of the new record, and writes the 25-byte header (with
  \<open>next = 0\<close>) and the payload at \<^verbatim>\<open>cur_pos\<close>.

  In the C code the body runs in a thread of its own, and the semaphores \<^verbatim>\<open>complete\<close> make
  the threads write to the file one after the other, in the order in which
  \<^verbatim>\<open>flush_buffer\<close> started them. The model keeps that order and nothing else of the
  concurrency: \<open>flush_buffer\<close> runs the body of the worker to its end before it goes on, so
  the slot \<^verbatim>\<open>cthread[i]\<close> lives only inside that call. Every \<^verbatim>\<open>fatal\<close> is the outcome
  \<open>Fatal\<close>.
\<close>

definition compthread ::
  "host \<Rightarrow> control \<Rightarrow> codecs \<Rightarrow> compress_thread \<Rightarrow> world \<times> stream_info
     \<Rightarrow> (world \<times> stream_info) outcome option" where
  "compthread h ctl cod cti0 = (\<lambda>(w, sinfo).
     obind (compress_stage h ctl cod cti0 (heap w)) (\<lambda>(cti, hp).
       let w = w\<lparr>heap := hp\<rparr> in
       or_fatal (Some (seekto w sinfo (last_head (the_stream sinfo (stream cti))))) (\<lambda>w.
       or_fatal (write_i64 w (cur_pos sinfo)) (\<lambda>w.
       let sinfo = upd_stream sinfo (stream cti) (\<lambda>st. st\<lparr>last_head := cur_pos sinfo + 17\<rparr>) in
       or_fatal (Some (seekto w sinfo (cur_pos sinfo))) (\<lambda>w.
       or_fatal
         (orelse (write_u8 w (ctype_byte h (c_type cti))) (\<lambda>w.
          orelse (write_i64 w (c_len cti)) (\<lambda>w.
          orelse (write_i64 w (s_len cti)) (\<lambda>w.
          write_i64 w 0)))) (\<lambda>w.
       let w = w\<lparr>rlog := rlog w @ [(stream cti, cur_pos sinfo, s_len cti)]\<rparr>;
           sinfo = sinfo\<lparr>cur_pos := cur_pos sinfo + 25\<rparr>
       in
       or_fatal (write_buf w (s_buf cti) (c_len cti)) (\<lambda>w.
       let sinfo = sinfo\<lparr>cur_pos := cur_pos sinfo + c_len cti\<rparr>
       in Some (Return (w, sinfo)))))))))"

definition flush_buffer ::
  "host \<Rightarrow> control \<Rightarrow> codecs \<Rightarrow> world \<times> stream_info \<Rightarrow> int
     \<Rightarrow> (world \<times> stream_info) outcome option" where
  "flush_buffer h ctl cod = (\<lambda>(w, sinfo) stream.
     let sinfo = upd_stream sinfo stream (\<lambda>st. st\<lparr>eos := eos st + 1\<rparr>);
         cti = \<lparr>s_buf = buf (the_stream sinfo stream), c_type = CTYPE_NONE,
                s_len = buflen (the_stream sinfo stream), c_len = 0, stream = stream\<rparr>
     in obind (compthread h ctl cod cti (w, sinfo)) (\<lambda>(w, sinfo).
          case malloc h (heap w) (bufsize sinfo) of
            (ok, hp) \<Rightarrow>
              if \<not> ok then Some Fatal
              else
                (let w = w\<lparr>heap := hp\<rparr>;
                     sinfo = upd_stream sinfo stream (\<lambda>st. st\<lparr>buf := [], buflen := 0\<rparr>);
                     sinfo = sinfo\<lparr>thread_no :=
                       (if thread_no sinfo + 1 = threads ctl then 0 else thread_no sinfo + 1)\<rparr>
                 in Some (Return (w, sinfo)))))"

text \<open>
  \<^verbatim>\<open>write_stream(ss, stream, p, len)\<close> copies into the buffer of the stream and hands the
  buffer over each time it holds \<^verbatim>\<open>bufsize\<close> bytes. Its loop runs while \<^verbatim>\<open>len\<close> is not zero,
  so the model is a partial function: \<open>None\<close> is a call that does not return.
  \<^verbatim>\<open>close_stream_out\<close> hands over what is left in each buffer.
\<close>

partial_function (option) write_stream ::
  "host \<Rightarrow> control \<Rightarrow> codecs \<Rightarrow> world \<times> stream_info \<Rightarrow> int \<Rightarrow> byte list \<Rightarrow> int
     \<Rightarrow> (int \<times> world \<times> stream_info) outcome option"
where
  "write_stream h ctl cod ss strm p len =
     (if len \<noteq> 0 then
        (let n = min (bufsize (snd ss) - buflen (the_stream (snd ss) strm)) len;
             sinfo = upd_stream (snd ss) strm
               (\<lambda>st. st\<lparr>buf := memcpy (buf st) (nat (buflen st)) p (nat n), buflen := buflen st + n\<rparr>)
         in if buflen (the_stream sinfo strm) = bufsize sinfo then
              obind (flush_buffer h ctl cod (fst ss, sinfo) strm) (\<lambda>ss'.
                write_stream h ctl cod ss' strm (drop (nat n) p) (len - n))
            else write_stream h ctl cod (fst ss, sinfo) strm (drop (nat n) p) (len - n))
      else Some (Return (0, ss)))"

declare write_stream.simps [code]

primrec close_flush ::
  "host \<Rightarrow> control \<Rightarrow> codecs \<Rightarrow> nat list \<Rightarrow> world \<times> stream_info
     \<Rightarrow> (world \<times> stream_info) outcome option" where
  "close_flush h ctl cod [] ss = Some (Return ss)"
| "close_flush h ctl cod (i # rest) ss =
     (if buflen (the_stream (snd ss) (int i)) \<noteq> 0 then
        obind (flush_buffer h ctl cod ss (int i)) (close_flush h ctl cod rest)
      else close_flush h ctl cod rest ss)"

definition close_stream_out ::
  "host \<Rightarrow> control \<Rightarrow> codecs \<Rightarrow> world \<times> stream_info \<Rightarrow> (int \<times> world \<times> stream_info) outcome option" where
  "close_stream_out h ctl cod ss =
     obind (close_flush h ctl cod [0 ..< nat (num_streams (snd ss))] ss) (\<lambda>ss'. Some (Return (0, ss')))"

subsection \<open>Opening for output\<close>

text \<open>
  \<^verbatim>\<open>open_stream_out(f, n, limit)\<close>. The table of threads, the table of workers and the table
  of streams are allocated with \<^verbatim>\<open>calloc\<close>, then the loop at the label \<^verbatim>\<open>retest_malloc\<close>
  looks for a window that can be allocated, the buffers of the streams are allocated, and
  the initial headers are written, one for each stream. The result \<open>None\<close> in the first
  component is the \<^verbatim>\<open>NULL\<close> handle.
\<close>

text \<open>
  The value an \<^verbatim>\<open>i64\<close> holds after an operation whose exact result is \<open>x\<close>: the result
  wrapped to 64 bits, two's complement.
\<close>

definition i64 :: "int \<Rightarrow> int" where
  "i64 x = sint (word_of_int x :: 64 word)"

definition capped_limit :: "host \<Rightarrow> int \<Rightarrow> int" where
  "capped_limit h limit = (if BITS32 h then min limit (cdiv (two_gig h) 6) else limit)"

definition testsize :: "host \<Rightarrow> int \<Rightarrow> int \<Rightarrow> int" where
  "testsize h limit n = (if BITS32 h then i64 (limit * n * 3) else i64 (limit * (n + 1)))"

definition next_limit :: "int \<Rightarrow> int" where
  "next_limit limit = cdiv limit 10 * 9"

partial_function (option) retest_malloc :: "host \<Rightarrow> heap \<Rightarrow> int \<Rightarrow> int \<Rightarrow> (int \<times> heap) option" where
  "retest_malloc h hp limit n =
     (case malloc h hp (testsize h limit n) of
        (testmalloc, hp') \<Rightarrow>
          if \<not> testmalloc then retest_malloc h hp' (next_limit limit) n
          else Some (limit, hp'))"

declare retest_malloc.simps [code]

text \<open>
  The block size for a limit. The division by \<^verbatim>\<open>control.threads\<close> traps when the divisor
  is 0 (and when the quotient is not an \<^verbatim>\<open>i64\<close>); the result is then \<open>None\<close>, and
  \<open>open_stream_out\<close> ends the process.
\<close>

definition fit_bufsize :: "host \<Rightarrow> control \<Rightarrow> int \<Rightarrow> int option" where
  "fit_bufsize h ctl limit =
     (let bufsize = limit;
          rounded = i64 (bufsize + threads ctl - 1)
      in if threads ctl = 0 \<or> (rounded = - (2 ^ 63) \<and> threads ctl = - 1) then None
         else
           (let bufsize = min bufsize (max (cdiv rounded (threads ctl)) (STREAM_BUFSIZE h));
                bufsize = (if BITS32 h \<and> LZMA_COMPRESS ctl
                           then min bufsize (3 * STREAM_BUFSIZE h * 10) else bufsize)
            in Some bufsize))"

primrec malloc_bufs :: "host \<Rightarrow> heap \<Rightarrow> int \<Rightarrow> nat \<Rightarrow> bool \<times> heap" where
  "malloc_bufs h hp sz 0 = (True, hp)"
| "malloc_bufs h hp sz (Suc k) =
     (case malloc h hp sz of
        (ok, hp') \<Rightarrow> if \<not> ok then (False, hp') else malloc_bufs h hp' sz k)"

primrec initial_headers ::
  "host \<Rightarrow> nat list \<Rightarrow> world \<times> stream_info \<Rightarrow> (world \<times> stream_info) option" where
  "initial_headers h [] ss = Some ss"
| "initial_headers h (i # rest) ss =
     (case ss of (w, sinfo) \<Rightarrow>
        let sinfo = upd_stream sinfo (int i) (\<lambda>st. st\<lparr>last_head := cur_pos sinfo + 17\<rparr>) in
        ignored (write_u8 w (ctype_byte h CTYPE_NONE)) (\<lambda>w.
        ignored (write_i64 w 0) (\<lambda>w.
        ignored (write_i64 w 0) (\<lambda>w.
        ignored (write_i64 w 0) (\<lambda>w.
        let w = w\<lparr>rlog := rlog w @ [(int i, cur_pos sinfo, 0)]\<rparr>;
            sinfo = sinfo\<lparr>cur_pos := cur_pos sinfo + 25\<rparr>
        in initial_headers h rest (w, sinfo))))))"

definition open_stream_out ::
  "host \<Rightarrow> control \<Rightarrow> world \<Rightarrow> int \<Rightarrow> int \<Rightarrow> (stream_info option \<times> world) outcome option" where
  "open_stream_out h ctl w n limit =
     (case malloc h (heap w) (sizeof_stream_info h) of
        (sinfo_ok, hp1) \<Rightarrow>
          if \<not> sinfo_ok then Some (Return (None, w\<lparr>heap := hp1\<rparr>))
          else
     (case malloc h hp1 (sizeof_pthread_t h * threads ctl) of
        (threads_ok, hp2) \<Rightarrow>
          if \<not> threads_ok then Some (Return (None, w\<lparr>heap := hp2\<rparr>))
          else
     (case malloc h hp2 (sizeof_compress_thread h * threads ctl) of
        (cthread_ok, hp3) \<Rightarrow>
          if \<not> cthread_ok then Some Fatal
          else
     (let limit = capped_limit h limit;
          sinfo = \<lparr>streams = [], num_streams = n, bufsize = limit, cur_pos = 0,
                    initial_pos = lseek_cur w, total_read = 0, thread_no = 0\<rparr>
      in case malloc h hp3 (sizeof_stream h * n) of
        (s_ok, hp4) \<Rightarrow>
          if \<not> s_ok then Some (Return (None, w\<lparr>heap := hp4\<rparr>))
          else
     (let sinfo = sinfo\<lparr>streams := replicate (nat n) calloc_stream\<rparr>
      in case retest_malloc h hp4 limit n of
        None \<Rightarrow> None
      | Some (limit, hp5) \<Rightarrow>
     (case fit_bufsize h ctl limit of
        None \<Rightarrow> Some Fatal
      | Some fitted \<Rightarrow>
     (let sinfo = sinfo\<lparr>bufsize := fitted\<rparr>
      in case malloc_bufs h hp5 (bufsize sinfo) (nat n) of
        (bufs_ok, hp6) \<Rightarrow>
          if \<not> bufs_ok then Some Fatal
          else
     (case initial_headers h [0 ..< nat n] (w\<lparr>heap := hp6\<rparr>, sinfo) of
        None \<Rightarrow> None
      | Some (w', sinfo') \<Rightarrow> Some (Return (Some sinfo', w'))))))))))"


subsection \<open>Facts about the file\<close>

lemma length_le64 [simp]: "length (le64 v) = 8"
  by (simp add: le64_def)

definition wrote :: "world \<Rightarrow> byte list \<Rightarrow> world" where
  "wrote w d = w\<lparr>fbytes := file_write (fbytes w) (nat (foff w)) d,
                 foff := foff w + int (length d),
                 wlog := wlog w @ [(foff w, d)]\<rparr>"

lemma wrote_fields [simp]:
  "foff (wrote w d) = foff w + int (length d)"
  "heap (wrote w d) = heap w"
  "rlog (wrote w d) = rlog w"
  "wlog (wrote w d) = wlog w @ [(foff w, d)]"
  by (simp_all add: wrote_def)

lemma posix_write_wrote: "posix_write w b c = (int (length (take (nat c) b)), wrote w (take (nat c) b))"
  by (simp add: posix_write_def wrote_def Let_def)

lemma write_buf_small:
  assumes "0 < len" "len \<le> one_g" "length p = nat len"
  shows "write_buf w p len = Some (0, wrote w p)"
proof -
  have "write_1g_loop posix_write w p len 0 = write_1g_loop posix_write (wrote w p) [] 0 len"
    using assms by (subst write_1g_loop.simps) (simp add: posix_write_wrote)
  also have "\<dots> = Some (len, wrote w p)"
    by (subst write_1g_loop.simps) simp
  finally show ?thesis using assms by (simp add: write_buf_def write_1g_def)
qed

lemma write_u8_eq [simp]: "write_u8 w v = Some (0, wrote w [v])"
  unfolding write_u8_def by (rule write_buf_small) (simp_all add: one_g_def)

lemma write_i64_eq [simp]: "write_i64 w v = Some (0, wrote w (le64 v))"
  unfolding write_i64_def by (subst write_buf_small) (simp_all add: one_g_def)

text \<open>What a write of any length leaves behind.\<close>

definition inside :: "int \<Rightarrow> int \<Rightarrow> (int \<times> byte list) list \<Rightarrow> bool" where
  "inside lo hi ext \<longleftrightarrow> (\<forall>(q, bs) \<in> set ext. lo \<le> q \<and> q + int (length bs) \<le> hi)"

lemma inside_Nil [simp]: "inside lo hi []"
  by (simp add: inside_def)

lemma inside_mono: "inside lo hi ext \<Longrightarrow> lo' \<le> lo \<Longrightarrow> hi \<le> hi' \<Longrightarrow> inside lo' hi' ext"
  by (fastforce simp: inside_def)

lemma write_1g_loop_posix:
  assumes run: "write_1g_loop posix_write w b len tot = Some y"
  shows "heap (snd y) = heap w \<and> rlog (snd y) = rlog w \<and> tot \<le> fst y \<and>
         foff (snd y) = foff w + (fst y - tot) \<and>
         (\<exists>ext. wlog (snd y) = wlog w @ ext \<and> inside (foff w) (foff (snd y)) ext)"
proof -
  let ?P = "\<lambda>sys w (b :: byte list) (len :: int) tot y. sys = posix_write \<longrightarrow>
      heap (snd y) = heap w \<and> rlog (snd y) = rlog w \<and> tot \<le> fst y \<and>
      foff (snd y) = foff w + (fst y - tot) \<and>
      (\<exists>ext. wlog (snd y) = wlog w @ ext \<and> inside (foff w) (foff (snd y)) ext)"
  have "?P posix_write w b len tot y"
    apply (rule write_1g_loop.raw_induct [where P = ?P, OF _ run])
    subgoal premises prems for rec sys w b len tot y
    proof (intro impI)
      assume sys: "sys = posix_write"
      note IH = prems(1) and body = prems(2) [unfolded sys]
      show "heap (snd y) = heap w \<and> rlog (snd y) = rlog w \<and> tot \<le> fst y \<and>
        foff (snd y) = foff w + (fst y - tot) \<and>
        (\<exists>ext. wlog (snd y) = wlog w @ ext \<and> inside (foff w) (foff (snd y)) ext)"
      proof (cases "0 < len")
        case False
        with body have "y = (tot, w)" by simp
        then show ?thesis by simp
      next
        case True
        define c where "c = (if one_g < len then one_g else len)"
        define d where "d = take (nat c) b"
        from body True
        have "rec posix_write (wrote w d) (drop (nat (int (length d))) b) (len - int (length d))
                (tot + int (length d)) = Some y"
          unfolding c_def [symmetric] by (simp add: posix_write_wrote d_def)
        from IH [OF this] sys obtain ext where
          r: "heap (snd y) = heap w" "rlog (snd y) = rlog w" "tot + int (length d) \<le> fst y"
            "foff (snd y) = foff w + int (length d) + (fst y - (tot + int (length d)))"
            "wlog (snd y) = (wlog w @ [(foff w, d)]) @ ext"
            "inside (foff w + int (length d)) (foff (snd y)) ext"
          by auto
        have i: "inside (foff w) (foff (snd y)) ((foff w, d) # ext)"
          using r(3,4,6) by (auto simp: inside_def)
        have l: "wlog (snd y) = wlog w @ ((foff w, d) # ext)" using r(5) by simp
        have t: "tot \<le> fst y" "foff (snd y) = foff w + (fst y - tot)" using r(3,4) by simp_all
        from r(1,2) t i l show ?thesis by blast
      qed
    qed
    done
  then show ?thesis by blast
qed

lemma write_buf_effect:
  assumes "write_buf w p len = Some (0, w')"
  shows "heap w' = heap w \<and> rlog w' = rlog w \<and> 0 \<le> len \<and> foff w' = foff w + len \<and>
         (\<exists>ext. wlog w' = wlog w @ ext \<and> inside (foff w) (foff w + len) ext)"
proof -
  from assms have run: "write_1g_loop posix_write w p len 0 = Some (len, w')"
    by (auto simp: write_buf_def write_1g_def split: option.splits if_splits)
  from write_1g_loop_posix [OF run] show ?thesis by auto
qed

lemma seekto_eq:
  "0 \<le> pos + initial_pos sinfo \<Longrightarrow> seekto w sinfo pos = (0, w\<lparr>foff := pos + initial_pos sinfo\<rparr>)"
  by (simp add: seekto_def lseek_set_def Let_def)

lemma or_fatal_Return:
  "or_fatal m k = Some (Return y) \<longleftrightarrow> (\<exists>w. m = Some (0, w) \<and> k w = Some (Return y))"
  by (cases m) (auto simp: or_fatal_def split: if_splits)

lemma orelse_Some [simp]:
  "orelse (Some (0, w)) k = (case k w of None \<Rightarrow> None | Some (r', w') \<Rightarrow> Some (if r' \<noteq> 0 then 1 else 0, w'))"
  by (simp add: orelse_def)

subsection \<open>The effect of one record\<close>

lemma upd_stream_fields [simp]:
  "streams (upd_stream sinfo i f) = (streams sinfo)[nat i := f (streams sinfo ! nat i)]"
  "num_streams (upd_stream sinfo i f) = num_streams sinfo"
  "bufsize (upd_stream sinfo i f) = bufsize sinfo"
  "cur_pos (upd_stream sinfo i f) = cur_pos sinfo"
  "initial_pos (upd_stream sinfo i f) = initial_pos sinfo"
  "total_read (upd_stream sinfo i f) = total_read sinfo"
  "thread_no (upd_stream sinfo i f) = thread_no sinfo"
  by (simp_all add: upd_stream_def)

lemma compthread_effect:
  assumes run: "compthread h ctl cod cti0 (w, sinfo) = Some (Return (w', sinfo'))"
    and pos: "0 \<le> initial_pos sinfo" "0 \<le> cur_pos sinfo"
      "0 \<le> last_head (the_stream sinfo (stream cti0))"
  shows "\<exists>(cti :: compress_thread) ext.
      0 \<le> c_len cti \<and>
      sinfo' = (upd_stream sinfo (stream cti0) (\<lambda>st. st\<lparr>last_head := cur_pos sinfo + 17\<rparr>))
                 \<lparr>cur_pos := cur_pos sinfo + 25 + c_len cti\<rparr> \<and>
      rlog w' = rlog w @ [(stream cti0, cur_pos sinfo, s_len cti0)] \<and>
      wlog w' = wlog w @
        [(last_head (the_stream sinfo (stream cti0)) + initial_pos sinfo, le64 (cur_pos sinfo)),
         (cur_pos sinfo + initial_pos sinfo, [ctype_byte h (c_type cti)]),
         (cur_pos sinfo + initial_pos sinfo + 1, le64 (c_len cti)),
         (cur_pos sinfo + initial_pos sinfo + 9, le64 (s_len cti0)),
         (cur_pos sinfo + initial_pos sinfo + 17, le64 0)] @ ext \<and>
      inside (cur_pos sinfo + initial_pos sinfo + 25)
        (cur_pos sinfo + initial_pos sinfo + 25 + c_len cti) ext"
proof -
  from run obtain cti hp where
    cs: "compress_stage h ctl cod cti0 (heap w) = Some (Return (cti, hp))"
    and rest: "compthread h ctl cod cti0 (w, sinfo) = Some (Return (w', sinfo'))"
    by (auto simp: compthread_def obind_Return_iff)
  from compress_stage_keeps [OF cs] have keep: "s_len cti = s_len cti0" "stream cti = stream cti0"
    by simp_all
  define w5 where "w5 = (wrote (wrote (wrote (wrote ((wrote (w\<lparr>heap := hp,
       foff := last_head (the_stream sinfo (stream cti0)) + initial_pos sinfo\<rparr>) (le64 (cur_pos sinfo)))
       \<lparr>foff := cur_pos sinfo + initial_pos sinfo\<rparr>) [ctype_byte h (c_type cti)])
       (le64 (c_len cti))) (le64 (s_len cti0))) (le64 0))
       \<lparr>rlog := rlog w @ [(stream cti0, cur_pos sinfo, s_len cti0)]\<rparr>"
  from rest obtain w6 where
    wb: "write_buf w5 (s_buf cti) (c_len cti) = Some (0, w6)"
    and fin: "w' = w6"
      "sinfo' = (upd_stream sinfo (stream cti0) (\<lambda>st. st\<lparr>last_head := cur_pos sinfo + 17\<rparr>))
                 \<lparr>cur_pos := cur_pos sinfo + 25 + c_len cti\<rparr>"
    using pos
    by (auto simp: compthread_def cs keep seekto_eq or_fatal_Return Let_def w5_def
        or_fatal_def [of "Some (0, _)"])
  have w5: "foff w5 = cur_pos sinfo + initial_pos sinfo + 25"
    "rlog w5 = rlog w @ [(stream cti0, cur_pos sinfo, s_len cti0)]"
    "wlog w5 = wlog w @
        [(last_head (the_stream sinfo (stream cti0)) + initial_pos sinfo, le64 (cur_pos sinfo)),
         (cur_pos sinfo + initial_pos sinfo, [ctype_byte h (c_type cti)]),
         (cur_pos sinfo + initial_pos sinfo + 1, le64 (c_len cti)),
         (cur_pos sinfo + initial_pos sinfo + 9, le64 (s_len cti0)),
         (cur_pos sinfo + initial_pos sinfo + 17, le64 0)]"
    by (simp_all add: w5_def)
  from write_buf_effect [OF wb] obtain ext where
    e: "rlog w6 = rlog w5" "0 \<le> c_len cti" "wlog w6 = wlog w5 @ ext"
       "inside (foff w5) (foff w5 + c_len cti) ext"
    by blast
  show ?thesis
    apply (rule exI [of _ cti])
    apply (rule exI [of _ ext])
    using e w5 fin by simp
qed

subsection \<open>What opening allocates\<close>

lemma upt_Suc_shift: "[0 ..< Suc k] = 0 # map Suc [0 ..< k]"
  by (simp add: upt_conv_Cons map_Suc_upt del: upt_Suc)

lemma retest_malloc_result:
  assumes run: "retest_malloc h hp limit n = Some y"
  shows "\<exists>k. fst y = (next_limit ^^ k) limit \<and>
           snd y = hp @ map (\<lambda>j. (testsize h ((next_limit ^^ j) limit) n, False)) [0 ..< k]
                      @ [(testsize h (fst y) n, True)]"
proof -
  let ?P = "\<lambda>h hp limit n y. \<exists>k. fst y = (next_limit ^^ k) limit \<and>
           snd y = hp @ map (\<lambda>j. (testsize h ((next_limit ^^ j) limit) n, False)) [0 ..< k]
                      @ [(testsize h (fst y) n, True)]"
  show ?thesis
  proof (rule retest_malloc.raw_induct [where P = ?P, OF _ run])
    fix rec h hp limit n y
    assume IH: "\<And>h hp limit n y. rec h hp limit n = Some y \<Longrightarrow> ?P h hp limit n y"
      and body: "(case malloc h hp (testsize h limit n) of
        (testmalloc, hp') \<Rightarrow>
          if \<not> testmalloc then rec h hp' (next_limit limit) n
          else Some (limit, hp')) = Some y"
    show "?P h hp limit n y"
    proof (cases "heap_ok h (length hp) (testsize h limit n)")
      case True
      with body have "y = (limit, hp @ [(testsize h limit n, True)])"
        by (auto simp: malloc_def)
      then show ?thesis by (intro exI [of _ 0]) simp
    next
      case False
      with body have "rec h (hp @ [(testsize h limit n, False)]) (next_limit limit) n = Some y"
        by (auto simp: malloc_def)
      from IH [OF this] obtain k where
        k: "fst y = (next_limit ^^ k) (next_limit limit)"
           "snd y = (hp @ [(testsize h limit n, False)])
              @ map (\<lambda>j. (testsize h ((next_limit ^^ j) (next_limit limit)) n, False)) [0 ..< k]
              @ [(testsize h (fst y) n, True)]"
        by blast
      show ?thesis
        apply (rule exI [of _ "Suc k"])
        using k by (simp add: funpow_swap1 upt_Suc_shift comp_def del: upt_Suc)
    qed
  qed
qed

lemma malloc_bufs_result:
  "malloc_bufs h hp sz k = (True, hp') \<Longrightarrow> hp' = hp @ replicate k (sz, True)"
proof (induction k arbitrary: hp)
  case 0
  then show ?case by simp
next
  case (Suc k)
  from Suc.prems have ok: "heap_ok h (length hp) sz"
    and rest: "malloc_bufs h (hp @ [(sz, True)]) sz k = (True, hp')"
    by (auto simp: malloc_def Let_def split: if_splits)
  from Suc.IH [OF rest] show ?case by (simp add: replicate_append_same)
qed

lemma ignored_Some [simp]: "ignored (Some (r, w)) k = k w"
  by (simp add: ignored_def)

lemma initial_headers_frame:
  "initial_headers h is (w, sinfo) = Some (w', sinfo') \<Longrightarrow>
     heap w' = heap w \<and> bufsize sinfo' = bufsize sinfo"
proof (induction "is" arbitrary: w sinfo)
  case Nil
  then show ?case by simp
next
  case (Cons i rest)
  from Cons.prems Cons.IH show ?case by (fastforce simp: Let_def)
qed

lemma fit_bufsize_floor:
  "fit_bufsize h ctl L = Some b \<Longrightarrow> STREAM_BUFSIZE h \<le> L \<Longrightarrow> 0 \<le> STREAM_BUFSIZE h \<Longrightarrow>
     STREAM_BUFSIZE h \<le> b"
  by (auto simp: fit_bufsize_def Let_def split: if_splits)

lemma fit_bufsize_small:
  "fit_bufsize h ctl L = Some b \<Longrightarrow> L < STREAM_BUFSIZE h \<Longrightarrow> \<not> BITS32 h \<Longrightarrow> b = L"
  by (auto simp: fit_bufsize_def Let_def split: if_splits)

lemma open_stream_out_handle:
  assumes run: "open_stream_out h ctl w n limit = Some (Return (Some sinfo, w'))"
  shows "\<exists>L hp5 hp6 b.
     heap_ok h (length (heap w)) (sizeof_stream_info h) \<and>
     heap_ok h (Suc (length (heap w))) (sizeof_pthread_t h * threads ctl) \<and>
     heap_ok h (Suc (Suc (length (heap w)))) (sizeof_compress_thread h * threads ctl) \<and>
     heap_ok h (Suc (Suc (Suc (length (heap w))))) (sizeof_stream h * n) \<and>
     retest_malloc h (heap w @ [(sizeof_stream_info h, True), (sizeof_pthread_t h * threads ctl, True),
        (sizeof_compress_thread h * threads ctl, True), (sizeof_stream h * n, True)])
        (capped_limit h limit) n = Some (L, hp5) \<and>
     fit_bufsize h ctl L = Some b \<and>
     malloc_bufs h hp5 b (nat n) = (True, hp6) \<and>
     initial_headers h [0 ..< nat n] (w\<lparr>heap := hp6\<rparr>,
        \<lparr>streams = replicate (nat n) calloc_stream, num_streams = n, bufsize = b,
         cur_pos = 0, initial_pos = lseek_cur w, total_read = 0, thread_no = 0\<rparr>) = Some (w', sinfo)"
  using run
  by (auto simp: open_stream_out_def malloc_def Let_def split: if_splits option.splits prod.splits)

text \<open>
  The requests of a call that returns a handle: the handle, the three tables, then
  \<open>k\<close> refused probes of \<open>testsize\<close> bytes for the limits \<open>limit\<close>, \<open>next_limit limit\<close>, ...,
  one granted probe for the limit \<open>next_limit\<close> has reached, and the \<open>n\<close> buffers of the block
  size fitted to that limit.
\<close>

lemma open_stream_out_requests:
  assumes "open_stream_out h ctl w n limit = Some (Return (Some sinfo, w'))"
  shows "\<exists>k.
     heap w' = heap w @
        [(sizeof_stream_info h, True), (sizeof_pthread_t h * threads ctl, True),
         (sizeof_compress_thread h * threads ctl, True), (sizeof_stream h * n, True)]
        @ map (\<lambda>j. (testsize h ((next_limit ^^ j) (capped_limit h limit)) n, False)) [0 ..< k]
        @ [(testsize h ((next_limit ^^ k) (capped_limit h limit)) n, True)]
        @ replicate (nat n) (bufsize sinfo, True) \<and>
     fit_bufsize h ctl ((next_limit ^^ k) (capped_limit h limit)) = Some (bufsize sinfo)"
proof -
  from open_stream_out_handle [OF assms] obtain L hp5 hp6 b where
    probe: "retest_malloc h (heap w @ [(sizeof_stream_info h, True),
        (sizeof_pthread_t h * threads ctl, True),
        (sizeof_compress_thread h * threads ctl, True), (sizeof_stream h * n, True)])
        (capped_limit h limit) n = Some (L, hp5)"
    and fit: "fit_bufsize h ctl L = Some b"
    and bufs: "malloc_bufs h hp5 b (nat n) = (True, hp6)"
    and heads: "initial_headers h [0 ..< nat n] (w\<lparr>heap := hp6\<rparr>,
        \<lparr>streams = replicate (nat n) calloc_stream, num_streams = n, bufsize = b,
         cur_pos = 0, initial_pos = lseek_cur w, total_read = 0, thread_no = 0\<rparr>) = Some (w', sinfo)"
    by blast
  from retest_malloc_result [OF probe] obtain k where
    k: "L = (next_limit ^^ k) (capped_limit h limit)"
    and hp5: "hp5 = (heap w @ [(sizeof_stream_info h, True),
        (sizeof_pthread_t h * threads ctl, True),
        (sizeof_compress_thread h * threads ctl, True), (sizeof_stream h * n, True)])
        @ map (\<lambda>j. (testsize h ((next_limit ^^ j) (capped_limit h limit)) n, False)) [0 ..< k]
        @ [(testsize h L n, True)]"
    by auto
  from initial_headers_frame [OF heads] have fr: "heap w' = hp6" "bufsize sinfo = b"
    by simp_all
  from malloc_bufs_result [OF bufs] have hp6: "hp6 = hp5 @ replicate (nat n) (b, True)" .
  show ?thesis
    apply (rule exI [of _ k])
    unfolding k [symmetric]
    using fr hp5 hp6 fit by simp
qed

lemma write_stream_zero:
  assumes run: "write_stream h ctl cod ss strm p len = Some y"
  shows "\<forall>r ss'. y = Return (r, ss') \<longrightarrow> r = 0"
proof -
  let ?P = "\<lambda>(h :: host) (ctl :: control) (cod :: codecs) (ss :: world \<times> stream_info)
      (strm :: int) (p :: byte list) (len :: int) (y :: (int \<times> world \<times> stream_info) outcome).
      \<forall>r ss'. y = Return (r, ss') \<longrightarrow> r = 0"
  show ?thesis
  proof (rule write_stream.raw_induct [where P = ?P, OF _ run])
    fix rec h ctl cod ss strm p len y
    assume IH: "\<And>h ctl cod ss strm p len y. rec h ctl cod ss strm p len = Some y \<Longrightarrow>
        ?P h ctl cod ss strm p len y"
      and body: "(if len \<noteq> 0 then
        (let n = min (bufsize (snd ss) - buflen (the_stream (snd ss) strm)) len;
             sinfo = upd_stream (snd ss) strm
               (\<lambda>st. st\<lparr>buf := memcpy (buf st) (nat (buflen st)) p (nat n), buflen := buflen st + n\<rparr>)
         in if buflen (the_stream sinfo strm) = bufsize sinfo then
              obind (flush_buffer h ctl cod (fst ss, sinfo) strm) (\<lambda>ss'.
                rec h ctl cod ss' strm (drop (nat n) p) (len - n))
            else rec h ctl cod (fst ss, sinfo) strm (drop (nat n) p) (len - n))
      else Some (Return (0, ss))) = Some y"
    show "?P h ctl cod ss strm p len y"
    proof (intro allI impI)
      fix r ss'
      assume y: "y = Return (r, ss')"
      from body [unfolded y] IH show "r = 0"
        by (auto simp: Let_def obind_Return_iff split: if_splits)
    qed
  qed
qed

text \<open>
  Example hosts and settings: \<open>hx\<close> refuses the fifth allocation request, which is the first
  probe of the window; \<open>ctl1\<close> is one thread and no compression.
\<close>

definition hx :: host where
  "hx = ex_host\<lparr>heap_ok := (\<lambda>k n. k \<noteq> 4)\<rparr>"

definition ctl1 :: control where
  "ctl1 = ex_control\<lparr>NO_COMPRESS := True, LZMA_COMPRESS := False, threads := 1\<rparr>"


text \<open>
  Claim C4. The claim, and the comment before the computation ("Make the bufsize no
  smaller than STREAM\_BUFSIZE"), promise a block size of at least \<^verbatim>\<open>STREAM_BUFSIZE\<close>. The
  code takes the minimum of the limit and of the rounded quotient raised to
  \<^verbatim>\<open>STREAM_BUFSIZE\<close>, so that a limit below \<^verbatim>\<open>STREAM_BUFSIZE\<close> is the block size. Here with a
  limit of 100 bytes, one stream and one thread, every allocation granted: the block size
  is 100, where the formula of the claim gives \<^verbatim>\<open>STREAM_BUFSIZE\<close>, 10485760.
\<close>

theorem memory_sizer_small_limit:
  "map_option (map_outcome (map_option bufsize \<circ> fst)) (open_stream_out ex_host ctl1 w0 1 100)
     = Some (Return (Some 100)) \<and>
   fit_bufsize ex_host ctl1 100 = Some 100 \<and>
   threads ctl1 = 1 \<and> 100 < STREAM_BUFSIZE ex_host \<and>
   max (STREAM_BUFSIZE ex_host) (min 100 (\<lceil>100 / real_of_int (threads ctl1)\<rceil>)) = 10485760"
  by code_simp

text \<open>
  Claim C8, as amended. \<^verbatim>\<open>open_stream_out\<close> returns \<^verbatim>\<open>NULL\<close> when the allocation of the
  handle, of the table of threads or of the table of streams fails. When the allocation
  of the table of workers or of a buffer fails, it calls \<^verbatim>\<open>fatal\<close>. A probe that fails is
  tried again with \<open>limit / 10 * 9\<close> in the place of \<open>limit\<close>: a call that returns a handle
  has made \<open>k\<close> refused probes, for the limits \<open>limit\<close>, \<open>next_limit limit\<close>, ..., and one
  granted probe for the limit reached after \<open>k\<close> steps, to which the block size is fitted.
  And \<^verbatim>\<open>write_stream\<close> returns 0 on success.
\<close>

theorem exhaustion_reporting:
  "(\<not> heap_ok h (length (heap w)) (sizeof_stream_info h) \<longrightarrow>
      open_stream_out h ctl w n limit =
        Some (Return (None, w\<lparr>heap := heap w @ [(sizeof_stream_info h, False)]\<rparr>))) \<and>
   (heap_ok h (length (heap w)) (sizeof_stream_info h) \<and>
    \<not> heap_ok h (Suc (length (heap w))) (sizeof_pthread_t h * threads ctl) \<longrightarrow>
      open_stream_out h ctl w n limit =
        Some (Return (None, w\<lparr>heap := heap w @ [(sizeof_stream_info h, True),
          (sizeof_pthread_t h * threads ctl, False)]\<rparr>))) \<and>
   (heap_ok h (length (heap w)) (sizeof_stream_info h) \<and>
    heap_ok h (Suc (length (heap w))) (sizeof_pthread_t h * threads ctl) \<and>
    \<not> heap_ok h (Suc (Suc (length (heap w)))) (sizeof_compress_thread h * threads ctl) \<longrightarrow>
      open_stream_out h ctl w n limit = Some Fatal) \<and>
   (heap_ok h (length (heap w)) (sizeof_stream_info h) \<and>
    heap_ok h (Suc (length (heap w))) (sizeof_pthread_t h * threads ctl) \<and>
    heap_ok h (Suc (Suc (length (heap w)))) (sizeof_compress_thread h * threads ctl) \<and>
    \<not> heap_ok h (Suc (Suc (Suc (length (heap w))))) (sizeof_stream h * n) \<longrightarrow>
      open_stream_out h ctl w n limit =
        Some (Return (None, w\<lparr>heap := heap w @ [(sizeof_stream_info h, True),
          (sizeof_pthread_t h * threads ctl, True),
          (sizeof_compress_thread h * threads ctl, True), (sizeof_stream h * n, False)]\<rparr>))) \<and>
   (heap_ok h (length (heap w)) (sizeof_stream_info h) \<and>
    heap_ok h (Suc (length (heap w))) (sizeof_pthread_t h * threads ctl) \<and>
    heap_ok h (Suc (Suc (length (heap w)))) (sizeof_compress_thread h * threads ctl) \<and>
    heap_ok h (Suc (Suc (Suc (length (heap w))))) (sizeof_stream h * n) \<and>
    retest_malloc h (heap w @ [(sizeof_stream_info h, True), (sizeof_pthread_t h * threads ctl, True),
        (sizeof_compress_thread h * threads ctl, True), (sizeof_stream h * n, True)])
      (capped_limit h limit) n = Some (L, hp5) \<and>
    fit_bufsize h ctl L = Some b \<and>
    fst (malloc_bufs h hp5 b (nat n)) = False \<longrightarrow>
      open_stream_out h ctl w n limit = Some Fatal) \<and>
   (open_stream_out h ctl w n limit = Some (Return (Some sinfo, w')) \<longrightarrow>
      (\<exists>k. heap w' = heap w @
          [(sizeof_stream_info h, True), (sizeof_pthread_t h * threads ctl, True),
           (sizeof_compress_thread h * threads ctl, True), (sizeof_stream h * n, True)]
          @ map (\<lambda>j. (testsize h ((next_limit ^^ j) (capped_limit h limit)) n, False)) [0 ..< k]
          @ [(testsize h ((next_limit ^^ k) (capped_limit h limit)) n, True)]
          @ replicate (nat n) (bufsize sinfo, True) \<and>
        fit_bufsize h ctl ((next_limit ^^ k) (capped_limit h limit)) = Some (bufsize sinfo))) \<and>
   (write_stream h ctl cod ss strm p len = Some (Return (r, ss')) \<longrightarrow> r = 0)"
proof (intro conjI impI; (elim conjE)?)
  assume "write_stream h ctl cod ss strm p len = Some (Return (r, ss'))"
  from write_stream_zero [OF this] show "r = 0" by simp
next
  assume "open_stream_out h ctl w n limit = Some (Return (Some sinfo, w'))"
  then show "\<exists>k. heap w' = heap w @
          [(sizeof_stream_info h, True), (sizeof_pthread_t h * threads ctl, True),
           (sizeof_compress_thread h * threads ctl, True), (sizeof_stream h * n, True)]
          @ map (\<lambda>j. (testsize h ((next_limit ^^ j) (capped_limit h limit)) n, False)) [0 ..< k]
          @ [(testsize h ((next_limit ^^ k) (capped_limit h limit)) n, True)]
          @ replicate (nat n) (bufsize sinfo, True) \<and>
        fit_bufsize h ctl ((next_limit ^^ k) (capped_limit h limit)) = Some (bufsize sinfo)"
    by (rule open_stream_out_requests)
next
  assume "\<not> heap_ok h (length (heap w)) (sizeof_stream_info h)"
  then show "open_stream_out h ctl w n limit =
        Some (Return (None, w\<lparr>heap := heap w @ [(sizeof_stream_info h, False)]\<rparr>))"
    by (simp add: open_stream_out_def malloc_def Let_def)
next
  assume "heap_ok h (length (heap w)) (sizeof_stream_info h)"
    "\<not> heap_ok h (Suc (length (heap w))) (sizeof_pthread_t h * threads ctl)"
  then show "open_stream_out h ctl w n limit =
        Some (Return (None, w\<lparr>heap := heap w @ [(sizeof_stream_info h, True),
          (sizeof_pthread_t h * threads ctl, False)]\<rparr>))"
    by (simp add: open_stream_out_def malloc_def Let_def)
next
  assume "heap_ok h (length (heap w)) (sizeof_stream_info h)"
    "heap_ok h (Suc (length (heap w))) (sizeof_pthread_t h * threads ctl)"
    "\<not> heap_ok h (Suc (Suc (length (heap w)))) (sizeof_compress_thread h * threads ctl)"
  then show "open_stream_out h ctl w n limit = Some Fatal"
    by (simp add: open_stream_out_def malloc_def Let_def)
next
  assume "heap_ok h (length (heap w)) (sizeof_stream_info h)"
    "heap_ok h (Suc (length (heap w))) (sizeof_pthread_t h * threads ctl)"
    "heap_ok h (Suc (Suc (length (heap w)))) (sizeof_compress_thread h * threads ctl)"
    "\<not> heap_ok h (Suc (Suc (Suc (length (heap w))))) (sizeof_stream h * n)"
  then show "open_stream_out h ctl w n limit =
        Some (Return (None, w\<lparr>heap := heap w @ [(sizeof_stream_info h, True),
          (sizeof_pthread_t h * threads ctl, True),
          (sizeof_compress_thread h * threads ctl, True), (sizeof_stream h * n, False)]\<rparr>))"
    by (simp add: open_stream_out_def malloc_def Let_def)
next
  assume "heap_ok h (length (heap w)) (sizeof_stream_info h)"
    "heap_ok h (Suc (length (heap w))) (sizeof_pthread_t h * threads ctl)"
    "heap_ok h (Suc (Suc (length (heap w)))) (sizeof_compress_thread h * threads ctl)"
    "heap_ok h (Suc (Suc (Suc (length (heap w))))) (sizeof_stream h * n)"
    "retest_malloc h (heap w @ [(sizeof_stream_info h, True), (sizeof_pthread_t h * threads ctl, True),
        (sizeof_compress_thread h * threads ctl, True), (sizeof_stream h * n, True)])
      (capped_limit h limit) n = Some (L, hp5)"
    "fit_bufsize h ctl L = Some b"
    "fst (malloc_bufs h hp5 b (nat n)) = False"
  then show "open_stream_out h ctl w n limit = Some Fatal"
    by (auto simp: open_stream_out_def malloc_def Let_def split: prod.splits)
qed

text \<open>
  On a host that refuses the first request: \<^verbatim>\<open>NULL\<close>. On \<open>hx\<close> the first probe, of 200
  bytes, is refused and the second, for the limit 90, is granted. On \<open>ex_host\<close>, where every
  buffer can be allocated, a write of three bytes returns 0.
\<close>

theorem exhaustion_reporting_witness:
  "open_stream_out (ex_host\<lparr>heap_ok := (\<lambda>k n. k \<noteq> 0)\<rparr>) ctl1 w0 1 100 =
     Some (Return (None, w0\<lparr>heap := [(64, False)]\<rparr>)) \<and>
   open_stream_out hx ctl1 w0 1 100 = Some (Return (Some
      \<lparr>streams = [\<lparr>buf = [], buflen = 0, bufp = 0, last_head = 17, eos = 0,
             base_thread = 0, uthread_no = 0, unext_thread = 0\<rparr>],
       num_streams = 1, bufsize = 90, cur_pos = 25, initial_pos = 0,
       total_read = 0, thread_no = 0\<rparr>,
     \<lparr>fbytes = 3 # replicate 24 0, foff = 25,
      heap = [(64, True), (8, True), (96, True), (64, True), (200, False), (180, True), (90, True)],
      wlog = [(0, [3]), (1, replicate 8 0), (9, replicate 8 0), (17, replicate 8 0)],
      rlog = [(0, 0, 0)]\<rparr>)) \<and>
   (\<exists>k. fit_bufsize hx ctl1 ((next_limit ^^ k) (capped_limit hx 100)) = Some 90) \<and>
   next_limit 100 = 90 \<and>
   map_option (map_outcome fst) (write_stream ex_host ctl1 ex_codecs
     (w0, \<lparr>streams = [calloc_stream], num_streams = 1, bufsize = 4, cur_pos = 25, initial_pos = 0,
            total_read = 0, thread_no = 0\<rparr>) 0 [1, 2, 3] 3) = Some (Return 0)"
proof -
  have a: "\<not> heap_ok (ex_host\<lparr>heap_ok := (\<lambda>k n. k \<noteq> 0)\<rparr>) (length (heap w0))
             (sizeof_stream_info (ex_host\<lparr>heap_ok := (\<lambda>k n. k \<noteq> 0)\<rparr>))"
    by (simp add: w0_def)
  have b: "heap w0 @ [(sizeof_stream_info (ex_host\<lparr>heap_ok := (\<lambda>k n. k \<noteq> 0)\<rparr>), False)] = [(64, False)]"
    by (simp add: w0_def ex_host_def)
  have c: "map_option (map_outcome fst) (write_stream ex_host ctl1 ex_codecs
     (w0, \<lparr>streams = [calloc_stream], num_streams = 1, bufsize = 4, cur_pos = 25, initial_pos = 0,
            total_read = 0, thread_no = 0\<rparr>) 0 [1, 2, 3] 3) = Some (Return 0)"
    by code_simp
  let ?S = "\<lparr>streams = [\<lparr>buf = [], buflen = 0, bufp = 0, last_head = 17, eos = 0,
             base_thread = 0, uthread_no = 0, unext_thread = 0\<rparr>],
       num_streams = 1, bufsize = 90, cur_pos = 25, initial_pos = 0,
       total_read = 0, thread_no = 0\<rparr>"
  let ?W = "\<lparr>fbytes = 3 # replicate 24 0, foff = 25,
      heap = [(64, True), (8, True), (96, True), (64, True), (200, False), (180, True), (90, True)],
      wlog = [(0, [3]), (1, replicate 8 0), (9, replicate 8 0), (17, replicate 8 0)],
      rlog = [(0, 0, 0)]\<rparr>"
  have run: "open_stream_out hx ctl1 w0 1 100 = Some (Return (Some ?S, ?W))"
    by code_simp
  have d: "next_limit 100 = 90" by code_simp
  from exhaustion_reporting [of "ex_host\<lparr>heap_ok := (\<lambda>k n. k \<noteq> 0)\<rparr>" w0 ctl1 1 100] a b
  have 1: "open_stream_out (ex_host\<lparr>heap_ok := (\<lambda>k n. k \<noteq> 0)\<rparr>) ctl1 w0 1 100 =
     Some (Return (None, w0\<lparr>heap := [(64, False)]\<rparr>))"
    by simp
  have "open_stream_out hx ctl1 w0 1 100 = Some (Return (Some ?S, ?W)) \<longrightarrow>
      (\<exists>k. heap ?W = heap w0 @
          [(sizeof_stream_info hx, True), (sizeof_pthread_t hx * threads ctl1, True),
           (sizeof_compress_thread hx * threads ctl1, True), (sizeof_stream hx * 1, True)]
          @ map (\<lambda>j. (testsize hx ((next_limit ^^ j) (capped_limit hx 100)) 1, False)) [0 ..< k]
          @ [(testsize hx ((next_limit ^^ k) (capped_limit hx 100)) 1, True)]
          @ replicate (nat 1) (bufsize ?S, True) \<and>
        fit_bufsize hx ctl1 ((next_limit ^^ k) (capped_limit hx 100)) = Some (bufsize ?S))"
    using exhaustion_reporting [where h = hx and w = w0 and ctl = ctl1 and n = 1 and limit = 100
        and sinfo = ?S and w' = ?W]
    by blast
  with run have 2: "\<exists>k. fit_bufsize hx ctl1 ((next_limit ^^ k) (capped_limit hx 100)) = Some 90"
    by auto
  from 1 2 run c d show ?thesis by blast
qed

text \<open>
  The claim as stated fails: when the table of workers cannot be allocated, the call does
  not return \<^verbatim>\<open>NULL\<close>, it ends the process.
\<close>

theorem exhaustion_reporting_counterexample:
  "\<not> heap_ok (ex_host\<lparr>heap_ok := (\<lambda>k n. k \<noteq> 2)\<rparr>) 2 (sizeof_compress_thread ex_host * threads ctl1) \<and>
   open_stream_out (ex_host\<lparr>heap_ok := (\<lambda>k n. k \<noteq> 2)\<rparr>) ctl1 w0 1 100 = Some Fatal"
  by code_simp


section \<open>The stream reader: opening (stream.c, open\_stream\_in)\<close>

text \<open>
  \<^verbatim>\<open>read_buf\<close>, \<^verbatim>\<open>read_u8\<close>, \<^verbatim>\<open>read_u32\<close> and \<^verbatim>\<open>read_i64\<close> over the ideal file. Each gives its
  return value, what it stored at the address it was given, and the new world. \<open>le_uint\<close>
  is the number a list of bytes holds, least significant byte first; a \<^verbatim>\<open>u32\<close> is read as
  an unsigned and an \<^verbatim>\<open>i64\<close> as a signed number. At the end of the file \<^verbatim>\<open>read\<close> returns 0
  and \<^verbatim>\<open>read_1g\<close> asks again and again: the wrappers then do not return.
\<close>

definition read_buf :: "world \<Rightarrow> int \<Rightarrow> (int \<times> byte list \<times> world) option" where
  "read_buf w len =
     (case read_1g posix_read w len of
        None \<Rightarrow> None
      | Some (ret, p, w') \<Rightarrow>
          if ret = -1 then Some (-1, p, w')
          else if ret \<noteq> len then Some (-1, p, w')
          else Some (0, p, w'))"

definition le_uint :: "byte list \<Rightarrow> int" where
  "le_uint bs = foldr (\<lambda>b v. uint b + 256 * v) bs 0"

definition read_u8 :: "world \<Rightarrow> (int \<times> byte \<times> world) option" where
  "read_u8 w =
     (case read_buf w 1 of
        None \<Rightarrow> None
      | Some (r, p, w') \<Rightarrow> Some (r, word_of_int (le_uint p), w'))"

definition read_u32 :: "world \<Rightarrow> (int \<times> int \<times> world) option" where
  "read_u32 w =
     (case read_buf w 4 of
        None \<Rightarrow> None
      | Some (r, p, w') \<Rightarrow>
          if r \<noteq> 0 then Some (-1, uint (word_of_int (le_uint p) :: 32 word), w')
          else Some (0, uint (word_of_int (le_uint p) :: 32 word), w'))"

definition read_i64 :: "world \<Rightarrow> (int \<times> int \<times> world) option" where
  "read_i64 w =
     (case read_buf w 8 of
        None \<Rightarrow> None
      | Some (r, p, w') \<Rightarrow>
          if r \<noteq> 0 then Some (-1, sint (word_of_int (le_uint p) :: 64 word), w')
          else Some (0, sint (word_of_int (le_uint p) :: 64 word), w'))"

text \<open>
  The test \<^verbatim>\<open>control.major_version == 0 && control.minor_version < 4\<close> for an archive of the
  old format, and the reads of the three numbers of a header in either format, which end
  at the first read that fails. The result is the return value, then \<open>v1\<close>, \<open>v2\<close>,
  \<^verbatim>\<open>last_head\<close> and \<^verbatim>\<open>header_length\<close>, then the world.
\<close>

definition legacy :: "control \<Rightarrow> bool" where
  "legacy ctl \<longleftrightarrow> major_version ctl = 0 \<and> minor_version ctl < 4"

definition read_fields ::
  "control \<Rightarrow> world \<Rightarrow> (int \<times> (int \<times> int \<times> int \<times> int) \<times> world) option" where
  "read_fields ctl w =
     (if legacy ctl then
        (case read_u32 w of None \<Rightarrow> None | Some (r, v132, w) \<Rightarrow>
           if r \<noteq> 0 then Some (-1, (0, 0, 0, 0), w) else
        (case read_u32 w of None \<Rightarrow> None | Some (r, v232, w) \<Rightarrow>
           if r \<noteq> 0 then Some (-1, (0, 0, 0, 0), w) else
        (case read_u32 w of None \<Rightarrow> None | Some (r, last_head32, w) \<Rightarrow>
           if r \<noteq> 0 then Some (-1, (0, 0, 0, 0), w)
           else Some (0, (v132, v232, last_head32, 13), w))))
      else
        (case read_i64 w of None \<Rightarrow> None | Some (r, v1, w) \<Rightarrow>
           if r \<noteq> 0 then Some (-1, (0, 0, 0, 0), w) else
        (case read_i64 w of None \<Rightarrow> None | Some (r, v2, w) \<Rightarrow>
           if r \<noteq> 0 then Some (-1, (0, 0, 0, 0), w) else
        (case read_i64 w of None \<Rightarrow> None | Some (r, lh, w) \<Rightarrow>
           if r \<noteq> 0 then Some (-1, (0, 0, 0, 0), w)
           else Some (0, (v1, v2, lh, 25), w)))))"

text \<open>
  The body of the \<^verbatim>\<open>for\<close> loop of \<^verbatim>\<open>open_stream_in\<close> from the label \<^verbatim>\<open>again\<close> on, for stream
  \<open>i\<close>: the header is read; if it is the header of stream 0 and its tag is \<^verbatim>\<open>CTYPE_NONE\<close>
  and its three numbers are 0, \<^verbatim>\<open>initial_pos\<close> is advanced by \<^verbatim>\<open>header_length\<close> and the
  control goes back to \<^verbatim>\<open>again\<close>; otherwise the header is checked. The first component of
  the result is \<open>False\<close> for \<^verbatim>\<open>goto failed\<close>. \<open>initial_records\<close> is the loop and
  \<open>open_stream_in\<close> the function; as for \<open>open_stream_out\<close>, the result \<open>None\<close> in the first
  component is \<^verbatim>\<open>NULL\<close>.
\<close>

partial_function (option) read_initial ::
  "host \<Rightarrow> control \<Rightarrow> world \<Rightarrow> stream_info \<Rightarrow> int \<Rightarrow> (bool \<times> world \<times> stream_info) option"
where
  "read_initial h ctl w sinfo i =
     (case read_u8 w of
        None \<Rightarrow> None
      | Some (r, c, w) \<Rightarrow>
          if r \<noteq> 0 then Some (False, w, sinfo)
          else
            (case read_fields ctl w of
               None \<Rightarrow> None
             | Some (r, (v1, v2, lh, header_length), w) \<Rightarrow>
                 if r \<noteq> 0 then Some (False, w, sinfo)
                 else
                   (let sinfo = upd_stream sinfo i (\<lambda>st. st\<lparr>last_head := lh\<rparr>)
                    in if c = ctype_byte h CTYPE_NONE \<and> v1 = 0 \<and> v2 = 0 \<and>
                          last_head (the_stream sinfo i) = 0 \<and> i = 0
                       then read_initial h ctl w
                              (sinfo\<lparr>initial_pos := initial_pos sinfo + header_length\<rparr>) i
                       else
                         (let sinfo = sinfo\<lparr>total_read := total_read sinfo + header_length\<rparr>
                          in if c \<noteq> ctype_byte h CTYPE_NONE then Some (False, w, sinfo)
                             else if v1 \<noteq> 0 then Some (False, w, sinfo)
                             else if v2 \<noteq> 0 then Some (False, w, sinfo)
                             else Some (True, w, sinfo)))))"

declare read_initial.simps [code]

primrec initial_records ::
  "host \<Rightarrow> control \<Rightarrow> nat list \<Rightarrow> world \<times> stream_info \<Rightarrow> (bool \<times> world \<times> stream_info) option" where
  "initial_records h ctl [] ss = Some (True, ss)"
| "initial_records h ctl (i # rest) ss =
     (case ss of (w, sinfo) \<Rightarrow>
        let sinfo = upd_stream sinfo (int i) (\<lambda>st. st\<lparr>base_thread := threads ctl * int i\<rparr>);
            sinfo = upd_stream sinfo (int i) (\<lambda>st. st\<lparr>uthread_no := base_thread st\<rparr>);
            sinfo = upd_stream sinfo (int i) (\<lambda>st. st\<lparr>unext_thread := base_thread st\<rparr>)
        in case read_initial h ctl w sinfo (int i) of
             None \<Rightarrow> None
           | Some (ok, w, sinfo) \<Rightarrow>
               if \<not> ok then Some (False, w, sinfo)
               else initial_records h ctl rest (w, sinfo))"

definition open_stream_in ::
  "host \<Rightarrow> control \<Rightarrow> world \<Rightarrow> int \<Rightarrow> (stream_info option \<times> world) outcome option" where
  "open_stream_in h ctl w n =
     (case malloc h (heap w) (sizeof_stream_info h * 1) of
        (sinfo_ok, hp1) \<Rightarrow>
          if \<not> sinfo_ok then Some (Return (None, w\<lparr>heap := hp1\<rparr>))
          else
     (let total_threads = threads ctl * n
      in case malloc h hp1 (sizeof_pthread_t h * total_threads) of
        (threads_ok, hp2) \<Rightarrow>
          if \<not> threads_ok then Some (Return (None, w\<lparr>heap := hp2\<rparr>))
          else
     (case malloc h hp2 (sizeof_uncomp_thread h * total_threads) of
        (ucthread_ok, hp3) \<Rightarrow>
          if \<not> ucthread_ok then Some Fatal
          else
     (let sinfo = \<lparr>streams = [], num_streams = n, bufsize = 0, cur_pos = 0,
                    initial_pos = lseek_cur w, total_read = 0, thread_no = 0\<rparr>
      in case malloc h hp3 (sizeof_stream h * n) of
        (s_ok, hp4) \<Rightarrow>
          if \<not> s_ok then Some (Return (None, w\<lparr>heap := hp4\<rparr>))
          else
     (let sinfo = sinfo\<lparr>streams := replicate (nat n) calloc_stream\<rparr>
      in case initial_records h ctl [0 ..< nat n] (w\<lparr>heap := hp4\<rparr>, sinfo) of
        None \<Rightarrow> None
      | Some (ok, w', sinfo') \<Rightarrow>
          if \<not> ok then Some (Return (None, w'))
          else Some (Return (Some sinfo', w')))))))"

subsection \<open>Reading a header that is in the file\<close>

text \<open>
  \<open>header_at ctl bs p\<close> is the header that the bytes \<open>bs\<close> hold at position \<open>p\<close>: the tag
  and the three numbers \<open>c_len\<close>, \<open>u_len\<close> and \<open>next\<close>, of 8 bytes each, or of 4 bytes each in
  the old format. A header is all-zero when its tag is \<^verbatim>\<open>CTYPE_NONE\<close> and its three numbers
  are 0, and it is a valid sentinel when its tag is \<^verbatim>\<open>CTYPE_NONE\<close> and \<open>c_len\<close> and \<open>u_len\<close>
  are 0.
\<close>

definition bytes_at :: "byte list \<Rightarrow> nat \<Rightarrow> nat \<Rightarrow> byte list" where
  "bytes_at bs p k = take k (drop p bs)"

definition header_length :: "control \<Rightarrow> int" where
  "header_length ctl = (if legacy ctl then 13 else 25)"

definition header_at :: "control \<Rightarrow> byte list \<Rightarrow> nat \<Rightarrow> byte \<times> int \<times> int \<times> int" where
  "header_at ctl bs p =
     (word_of_int (le_uint (bytes_at bs p 1)),
      if legacy ctl then
        (uint (word_of_int (le_uint (bytes_at bs (p + 1) 4)) :: 32 word),
         uint (word_of_int (le_uint (bytes_at bs (p + 5) 4)) :: 32 word),
         uint (word_of_int (le_uint (bytes_at bs (p + 9) 4)) :: 32 word))
      else
        (sint (word_of_int (le_uint (bytes_at bs (p + 1) 8)) :: 64 word),
         sint (word_of_int (le_uint (bytes_at bs (p + 9) 8)) :: 64 word),
         sint (word_of_int (le_uint (bytes_at bs (p + 17) 8)) :: 64 word)))"

definition all_zero :: "host \<Rightarrow> byte \<times> int \<times> int \<times> int \<Rightarrow> bool" where
  "all_zero h = (\<lambda>(c, v1, v2, lh). c = ctype_byte h CTYPE_NONE \<and> v1 = 0 \<and> v2 = 0 \<and> lh = 0)"

definition valid_initial :: "host \<Rightarrow> byte \<times> int \<times> int \<times> int \<Rightarrow> bool" where
  "valid_initial h = (\<lambda>(c, v1, v2, lh). c = ctype_byte h CTYPE_NONE \<and> v1 = 0 \<and> v2 = 0)"

definition next_of :: "byte \<times> int \<times> int \<times> int \<Rightarrow> int" where
  "next_of = (\<lambda>(c, v1, v2, lh). lh)"

lemma read_buf_small:
  assumes "0 < len" "len \<le> one_g" "0 \<le> foff w" "nat (foff w) + nat len \<le> length (fbytes w)"
  shows "read_buf w len =
     Some (0, bytes_at (fbytes w) (nat (foff w)) (nat len), w\<lparr>foff := foff w + len\<rparr>)"
proof -
  define d where "d = take (nat len) (drop (nat (foff w)) (fbytes w))"
  have ld: "int (length d) = len" using assms by (simp add: d_def)
  have pr: "posix_read w len = (len, d, w\<lparr>foff := foff w + len\<rparr>)"
    using ld by (simp add: posix_read_def Let_def d_def [symmetric])
  have "read_1g_loop posix_read w [] len 0 =
          read_1g_loop posix_read (w\<lparr>foff := foff w + len\<rparr>) d 0 len"
    using assms ld by (subst read_1g_loop.simps) (simp add: pr)
  also have "\<dots> = Some (len, d, w\<lparr>foff := foff w + len\<rparr>)"
    by (subst read_1g_loop.simps) simp
  finally show ?thesis using assms by (simp add: read_buf_def read_1g_def d_def bytes_at_def)
qed

lemma read_u8_eq:
  assumes "0 \<le> foff w" "nat (foff w) + 1 \<le> length (fbytes w)"
  shows "read_u8 w = Some (0, word_of_int (le_uint (bytes_at (fbytes w) (nat (foff w)) 1)),
                          w\<lparr>foff := foff w + 1\<rparr>)"
  using assms by (simp add: read_u8_def read_buf_small one_g_def)

lemma read_u32_eq:
  assumes "0 \<le> foff w" "nat (foff w) + 4 \<le> length (fbytes w)"
  shows "read_u32 w = Some (0, uint (word_of_int (le_uint (bytes_at (fbytes w) (nat (foff w)) 4)) :: 32 word),
                          w\<lparr>foff := foff w + 4\<rparr>)"
  using assms by (simp add: read_u32_def read_buf_small one_g_def)

lemma read_i64_eq:
  assumes "0 \<le> foff w" "nat (foff w) + 8 \<le> length (fbytes w)"
  shows "read_i64 w = Some (0, sint (word_of_int (le_uint (bytes_at (fbytes w) (nat (foff w)) 8)) :: 64 word),
                          w\<lparr>foff := foff w + 8\<rparr>)"
  using assms by (simp add: read_i64_def read_buf_small one_g_def)

lemma read_header:
  assumes "0 \<le> foff w" "nat (foff w) + nat (header_length ctl) \<le> length (fbytes w)"
  shows "read_u8 w = Some (0, fst (header_at ctl (fbytes w) (nat (foff w))), w\<lparr>foff := foff w + 1\<rparr>)"
    and "read_fields ctl (w\<lparr>foff := foff w + 1\<rparr>) =
      Some (0, (fst (snd (header_at ctl (fbytes w) (nat (foff w)))),
                fst (snd (snd (header_at ctl (fbytes w) (nat (foff w))))),
                snd (snd (snd (header_at ctl (fbytes w) (nat (foff w))))),
                header_length ctl),
            w\<lparr>foff := foff w + header_length ctl\<rparr>)"
proof -
  show "read_u8 w = Some (0, fst (header_at ctl (fbytes w) (nat (foff w))), w\<lparr>foff := foff w + 1\<rparr>)"
    using assms by (simp add: read_u8_eq header_at_def header_length_def split: if_splits)
  show "read_fields ctl (w\<lparr>foff := foff w + 1\<rparr>) =
      Some (0, (fst (snd (header_at ctl (fbytes w) (nat (foff w)))),
                fst (snd (snd (header_at ctl (fbytes w) (nat (foff w))))),
                snd (snd (snd (header_at ctl (fbytes w) (nat (foff w))))),
                header_length ctl),
            w\<lparr>foff := foff w + header_length ctl\<rparr>)"
  proof (cases "legacy ctl")
    case True
    with assms show ?thesis
      by (simp add: read_fields_def read_u32_eq header_at_def header_length_def nat_add_distrib
          add.commute)
  next
    case False
    with assms show ?thesis
      by (simp add: read_fields_def read_i64_eq header_at_def header_length_def nat_add_distrib
          add.commute)
  qed
qed


lemma the_stream_upd [simp]:
  "nat i < length (streams sinfo) \<Longrightarrow> the_stream (upd_stream sinfo i f) i = f (the_stream sinfo i)"
  by (simp add: the_stream_def upd_stream_def)

lemma read_initial_step:
  assumes "0 \<le> foff w" "nat (foff w) + nat (header_length ctl) \<le> length (fbytes w)"
    and "nat i < length (streams sinfo)"
    and "header_at ctl (fbytes w) (nat (foff w)) = x"
  shows "read_initial h ctl w sinfo i =
     (if all_zero h x \<and> i = 0
      then read_initial h ctl (w\<lparr>foff := foff w + header_length ctl\<rparr>)
             ((upd_stream sinfo i (\<lambda>st. st\<lparr>last_head := next_of x\<rparr>))
                \<lparr>initial_pos := initial_pos sinfo + header_length ctl\<rparr>) i
      else Some (valid_initial h x, w\<lparr>foff := foff w + header_length ctl\<rparr>,
             (upd_stream sinfo i (\<lambda>st. st\<lparr>last_head := next_of x\<rparr>))
                \<lparr>total_read := total_read sinfo + header_length ctl\<rparr>))"
proof -
  obtain c v1 v2 lh where x: "x = (c, v1, v2, lh)" by (cases x)
  note rh = read_header [OF assms(1,2), unfolded assms(4) x, simplified]
  show ?thesis
    apply (subst read_initial.simps)
    using assms(3)
    by (simp add: rh x all_zero_def valid_initial_def next_of_def Let_def)
qed


lemma header_length_pos: "0 < header_length ctl"
  by (simp add: header_length_def)

lemma upd_stream_initial_pos:
  "upd_stream (sinfo\<lparr>initial_pos := a\<rparr>) i f = (upd_stream sinfo i f)\<lparr>initial_pos := a\<rparr>"
  by (simp add: upd_stream_def)

lemma upd_stream_last_head_twice:
  "upd_stream (upd_stream sinfo i (\<lambda>st. st\<lparr>last_head := a\<rparr>)) i (\<lambda>st. st\<lparr>last_head := b\<rparr>)
     = upd_stream sinfo i (\<lambda>st. st\<lparr>last_head := b\<rparr>)"
  by (cases "nat i < length (streams sinfo)") (simp_all add: upd_stream_def list_update_beyond)

lemma read_initial_zeros:
  assumes "0 \<le> foff w" "0 < length (streams sinfo)"
    and "foff w + (int k + 1) * header_length ctl \<le> int (length (fbytes w))"
    and "\<forall>j<k. all_zero h (header_at ctl (fbytes w) (nat (foff w + int j * header_length ctl)))"
    and "\<not> all_zero h (header_at ctl (fbytes w) (nat (foff w + int k * header_length ctl)))"
  shows "read_initial h ctl w sinfo 0 =
     Some (valid_initial h (header_at ctl (fbytes w) (nat (foff w + int k * header_length ctl))),
           w\<lparr>foff := foff w + (int k + 1) * header_length ctl\<rparr>,
           (upd_stream sinfo 0 (\<lambda>st. st\<lparr>last_head :=
               next_of (header_at ctl (fbytes w) (nat (foff w + int k * header_length ctl)))\<rparr>))
             \<lparr>initial_pos := initial_pos sinfo + int k * header_length ctl,
               total_read := total_read sinfo + header_length ctl\<rparr>)"
  using assms
proof (induction k arbitrary: w sinfo)
  case 0
  have fit: "nat (foff w) + nat (header_length ctl) \<le> length (fbytes w)"
    using "0.prems"(1,3) header_length_pos [of ctl] by simp
  have len: "nat 0 < length (streams sinfo)" using "0.prems"(2) by simp
  from read_initial_step [OF "0.prems"(1) fit len refl, of h] "0.prems"(5)
  show ?case by simp
next
  case (Suc k)
  define hl where "hl = header_length ctl"
  have hl: "0 < hl" by (simp add: hl_def header_length_pos)
  note prems = Suc.prems [folded hl_def]
  have mono: "hl \<le> (int (Suc k) + 1) * hl" using hl by (simp add: algebra_simps)
  have fit: "nat (foff w) + nat hl \<le> length (fbytes w)"
    using prems(1,3) hl mono by linarith
  have len: "nat 0 < length (streams sinfo)" using prems(2) by simp
  have z0: "all_zero h (header_at ctl (fbytes w) (nat (foff w)))"
    using prems(4) [rule_format, of 0] by simp
  define w1 where "w1 = w\<lparr>foff := foff w + hl\<rparr>"
  define s1 where "s1 = (upd_stream sinfo 0 (\<lambda>st. st\<lparr>last_head :=
      next_of (header_at ctl (fbytes w) (nat (foff w)))\<rparr>))\<lparr>initial_pos := initial_pos sinfo + hl\<rparr>"
  have step: "read_initial h ctl w sinfo 0 = read_initial h ctl w1 s1 0"
    using read_initial_step [OF prems(1) fit [unfolded hl_def] len refl, of h] z0
    by (simp add: w1_def s1_def hl_def)
  have p1: "0 \<le> foff w1" "0 < length (streams s1)"
    using prems(1,2) hl by (simp_all add: w1_def s1_def)
  have p3: "foff w1 + (int k + 1) * hl \<le> int (length (fbytes w1))"
    using prems(3) by (simp add: w1_def algebra_simps)
  have shift: "foff w1 + int j * hl = foff w + int (Suc j) * hl" for j
    by (simp add: w1_def algebra_simps)
  have p4: "\<forall>j<k. all_zero h (header_at ctl (fbytes w1) (nat (foff w1 + int j * hl)))"
  proof (intro allI impI)
    fix j assume "j < k"
    then have "Suc j < Suc k" by simp
    from prems(4) [rule_format, OF this] show "all_zero h (header_at ctl (fbytes w1) (nat (foff w1 + int j * hl)))"
      unfolding shift by (simp add: w1_def)
  qed
  have p5: "\<not> all_zero h (header_at ctl (fbytes w1) (nat (foff w1 + int k * hl)))"
    using prems(5) unfolding shift by (simp add: w1_def)
  note IH = Suc.IH [folded hl_def, OF p1 p3 p4 p5]
  show ?case
    unfolding hl_def [symmetric] step IH shift
    by (simp add: w1_def s1_def upd_stream_initial_pos upd_stream_last_head_twice algebra_simps)
qed


lemma upd_stream_length [simp]: "length (streams (upd_stream sinfo i f)) = length (streams sinfo)"
  by (simp add: upd_stream_def)

lemma upd_stream_keeps_last_head:
  assumes "\<And>st. last_head (f st) = last_head st"
  shows "last_head (streams (upd_stream sinfo i f) ! j) = last_head (streams sinfo ! j)"
proof (cases "nat i < length (streams sinfo)")
  case True
  then show ?thesis using assms by (cases "nat i = j") (simp_all add: upd_stream_def)
next
  case False
  then show ?thesis by (simp add: upd_stream_def list_update_beyond)
qed

lemma initial_records_rest:
  assumes "0 \<le> b" "foff w = b + int i * header_length ctl" "fbytes w = bs"
    and "n \<le> length (streams sinfo)" "0 < i" "i \<le> n"
    and "b + int n * header_length ctl \<le> int (length bs)"
  shows "\<exists>w' s'. initial_records h ctl [i ..< n] (w, sinfo) =
            Some ((\<forall>j. i \<le> j \<and> j < n \<longrightarrow>
                     valid_initial h (header_at ctl bs (nat (b + int j * header_length ctl)))), w', s') \<and>
          ((\<forall>j. i \<le> j \<and> j < n \<longrightarrow>
                     valid_initial h (header_at ctl bs (nat (b + int j * header_length ctl)))) \<longrightarrow>
           initial_pos s' = initial_pos sinfo \<and> num_streams s' = num_streams sinfo \<and>
           length (streams s') = length (streams sinfo) \<and>
           (\<forall>j<length (streams sinfo). last_head (streams s' ! j) =
              (if i \<le> j \<and> j < n
               then next_of (header_at ctl bs (nat (b + int j * header_length ctl)))
               else last_head (streams sinfo ! j))))"
  using assms
proof (induction "n - i" arbitrary: i w sinfo)
  case 0
  then have "[i ..< n] = []" by simp
  with 0 show ?case by auto
next
  case (Suc d)
  define hl where "hl = header_length ctl"
  have hl: "0 < hl" by (simp add: hl_def header_length_pos)
  note prems = Suc.prems [folded hl_def]
  from Suc.hyps(2) have lt: "i < n" by simp
  then have upt: "[i ..< n] = i # [Suc i ..< n]" by (simp add: upt_conv_Cons)
  define x where "x = header_at ctl bs (nat (b + int i * hl))"
  define sa where "sa = upd_stream (upd_stream (upd_stream sinfo (int i)
      (\<lambda>st. st\<lparr>base_thread := threads ctl * int i\<rparr>)) (int i)
      (\<lambda>st. st\<lparr>uthread_no := base_thread st\<rparr>)) (int i) (\<lambda>st. st\<lparr>unext_thread := base_thread st\<rparr>)"
  have sa123: "length (streams sa) = length (streams sinfo)" "initial_pos sa = initial_pos sinfo"
    "num_streams sa = num_streams sinfo"
    unfolding sa_def by simp_all
  have sa4: "\<forall>j<length (streams sinfo). last_head (streams sa ! j) = last_head (streams sinfo ! j)"
    unfolding sa_def by (simp add: upd_stream_keeps_last_head del: upd_stream_fields)
  note sa = sa123 sa4
  have f0: "0 \<le> foff w" using prems(1,2) hl by simp
  have le: "int i * hl + hl \<le> int n * hl"
  proof -
    have "int (Suc i) * hl \<le> int n * hl" using lt hl by (intro mult_right_mono) simp_all
    then show ?thesis by (simp add: algebra_simps)
  qed
  have "foff w + hl \<le> int (length bs)" using prems(2,7) le by linarith
  then have fit: "nat (foff w) + nat (header_length ctl) \<le> length (fbytes w)"
    using f0 hl prems(3) unfolding hl_def [symmetric] by simp
  have len: "nat (int i) < length (streams sa)" using lt prems(4) sa(1) by simp
  have hx: "header_at ctl (fbytes w) (nat (foff w)) = x"
    by (simp add: x_def prems(2,3))
  define w1 where "w1 = w\<lparr>foff := foff w + hl\<rparr>"
  define s1 where "s1 = (upd_stream sa (int i) (\<lambda>st. st\<lparr>last_head := next_of x\<rparr>))
      \<lparr>total_read := total_read sa + hl\<rparr>"
  have ri: "read_initial h ctl w sa (int i) = Some (valid_initial h x, w1, s1)"
    using read_initial_step [OF f0 fit len hx, of h] prems(5)
    by (simp add: w1_def s1_def hl_def)
  have s123: "length (streams s1) = length (streams sinfo)" "initial_pos s1 = initial_pos sinfo"
    "num_streams s1 = num_streams sinfo"
    by (simp_all add: s1_def sa)
  have s4: "last_head (streams s1 ! j) = (if j = i then next_of x else last_head (streams sinfo ! j))"
    if "j < length (streams sinfo)" for j
  proof (cases "j = i")
    case True
    with that sa(1) show ?thesis by (simp add: s1_def)
  next
    case False
    with that sa4 show ?thesis by (simp add: s1_def)
  qed
  have run: "initial_records h ctl [i ..< n] (w, sinfo) =
      (if \<not> valid_initial h x then Some (False, w1, s1)
       else initial_records h ctl [Suc i ..< n] (w1, s1))"
    unfolding upt by (simp add: Let_def sa_def [symmetric] ri)
  let ?V = "\<lambda>j. valid_initial h (header_at ctl bs (nat (b + int j * hl)))"
  let ?N = "\<lambda>j. next_of (header_at ctl bs (nat (b + int j * hl)))"
  have goal: "\<exists>w' s'. initial_records h ctl [i ..< n] (w, sinfo) =
            Some ((\<forall>j. i \<le> j \<and> j < n \<longrightarrow> ?V j), w', s') \<and>
          ((\<forall>j. i \<le> j \<and> j < n \<longrightarrow> ?V j) \<longrightarrow>
           initial_pos s' = initial_pos sinfo \<and> num_streams s' = num_streams sinfo \<and>
           length (streams s') = length (streams sinfo) \<and>
           (\<forall>j<length (streams sinfo). last_head (streams s' ! j) =
              (if i \<le> j \<and> j < n then ?N j else last_head (streams sinfo ! j))))"
  proof (cases "valid_initial h x")
    case False
    then have "\<not> ?V i" by (simp add: x_def)
    with lt have nv: "(\<forall>j. i \<le> j \<and> j < n \<longrightarrow> ?V j) = False" by blast
    show ?thesis
      apply (rule exI [of _ w1])
      apply (rule exI [of _ s1])
      unfolding nv run using False by simp
  next
    case True
    then have vi: "?V i" by (simp add: x_def)
    have d: "d = n - Suc i" using Suc.hyps(2) by simp
    have q2: "foff w1 = b + int (Suc i) * hl" using prems(2) by (simp add: w1_def algebra_simps)
    have q3: "fbytes w1 = bs" using prems(3) by (simp add: w1_def)
    have q4: "n \<le> length (streams s1)" using prems(4) s123(1) by simp
    have q5: "0 < Suc i" "Suc i \<le> n" using lt by simp_all
    from Suc.hyps(1) [folded hl_def, OF d prems(1) q2 q3 q4 q5 prems(7)]
    obtain w' s' where
      r: "initial_records h ctl [Suc i ..< n] (w1, s1) =
            Some ((\<forall>j. Suc i \<le> j \<and> j < n \<longrightarrow> ?V j), w', s')"
      and ok: "(\<forall>j. Suc i \<le> j \<and> j < n \<longrightarrow> ?V j) \<longrightarrow>
           initial_pos s' = initial_pos s1 \<and> num_streams s' = num_streams s1 \<and>
           length (streams s') = length (streams s1) \<and>
           (\<forall>j<length (streams s1). last_head (streams s' ! j) =
              (if Suc i \<le> j \<and> j < n then ?N j else last_head (streams s1 ! j)))"
      by blast
    have split: "(\<forall>j. i \<le> j \<and> j < n \<longrightarrow> ?V j) = (\<forall>j. Suc i \<le> j \<and> j < n \<longrightarrow> ?V j)"
    proof
      assume a: "\<forall>j. Suc i \<le> j \<and> j < n \<longrightarrow> ?V j"
      show "\<forall>j. i \<le> j \<and> j < n \<longrightarrow> ?V j"
      proof (intro allI impI)
        fix j assume j: "i \<le> j \<and> j < n"
        show "?V j"
        proof (cases "j = i")
          case True
          with vi show ?thesis by simp
        next
          case False
          with j have "Suc i \<le> j \<and> j < n" by simp
          with a show ?thesis by blast
        qed
      qed
    next
      assume a: "\<forall>j. i \<le> j \<and> j < n \<longrightarrow> ?V j"
      show "\<forall>j. Suc i \<le> j \<and> j < n \<longrightarrow> ?V j"
      proof (intro allI impI)
        fix j assume "Suc i \<le> j \<and> j < n"
        then have "i \<le> j \<and> j < n" by simp
        with a show "?V j" by blast
      qed
    qed
    have fin: "initial_pos s' = initial_pos sinfo \<and> num_streams s' = num_streams sinfo \<and>
           length (streams s') = length (streams sinfo) \<and>
           (\<forall>j<length (streams sinfo). last_head (streams s' ! j) =
              (if i \<le> j \<and> j < n then ?N j else last_head (streams sinfo ! j)))"
      if all: "\<forall>j. Suc i \<le> j \<and> j < n \<longrightarrow> ?V j"
    proof -
      from ok all have o: "initial_pos s' = initial_pos s1" "num_streams s' = num_streams s1"
        "length (streams s') = length (streams s1)"
        "\<forall>j<length (streams s1). last_head (streams s' ! j) =
              (if Suc i \<le> j \<and> j < n then ?N j else last_head (streams s1 ! j))"
        by blast+
      have "last_head (streams s' ! j) = (if i \<le> j \<and> j < n then ?N j else last_head (streams sinfo ! j))"
        if j: "j < length (streams sinfo)" for j
      proof (cases "j = i")
        case True
        with o(4) [rule_format, of j] j s123(1) s4 [OF j] lt show ?thesis by (simp add: x_def)
      next
        case False
        with o(4) [rule_format, of j] j s123(1) s4 [OF j] show ?thesis by auto
      qed
      with o(1,2,3) s123 show ?thesis by simp
    qed
    show ?thesis
      apply (rule exI [of _ w'])
      apply (rule exI [of _ s'])
      unfolding split run using True r fin by simp
  qed
  then show ?case unfolding hl_def .
qed


text \<open>
  Claim C5, as amended. The file holds, from the offset of the descriptor on, \<open>k\<close>
  all-zero headers, then a header that is not all-zero, and it is long enough for \<open>n\<close>
  headers from that one on; the four allocations succeed. Then \<^verbatim>\<open>open_stream_in\<close> returns.
  It has advanced \<^verbatim>\<open>initial_pos\<close> by \<open>k\<close> times the length of a header, which is 25, or 13 in
  the old format: once for each all-zero header it read for stream 0. The \<open>n\<close> headers
  from there on are the sentinels. It returns \<^verbatim>\<open>NULL\<close> exactly when one of them has a tag
  other than \<^verbatim>\<open>CTYPE_NONE\<close> or a \<open>c_len\<close> or \<open>u_len\<close> other than 0, and otherwise a handle in
  which \<^verbatim>\<open>last_head\<close> of stream \<open>i\<close> is the \<open>next\<close> field of sentinel \<open>i\<close>.
\<close>

theorem reader_open:
  assumes a1: "heap_ok h (length (heap w)) (sizeof_stream_info h * 1)"
    and a2: "heap_ok h (Suc (length (heap w))) (sizeof_pthread_t h * (threads ctl * n))"
    and a3: "heap_ok h (Suc (Suc (length (heap w)))) (sizeof_uncomp_thread h * (threads ctl * n))"
    and a4: "heap_ok h (Suc (Suc (Suc (length (heap w))))) (sizeof_stream h * n)"
    and n: "0 < n" and off: "0 \<le> foff w"
    and fit: "foff w + (int k + n) * header_length ctl \<le> int (length (fbytes w))"
    and zeros: "\<forall>j<k. all_zero h (header_at ctl (fbytes w) (nat (foff w + int j * header_length ctl)))"
    and first: "\<not> all_zero h (header_at ctl (fbytes w) (nat (foff w + int k * header_length ctl)))"
  shows "\<exists>r w'. open_stream_in h ctl w n = Some (Return (r, w')) \<and>
      ((r = None) = (\<exists>i<nat n. \<not> valid_initial h
          (header_at ctl (fbytes w) (nat (foff w + (int k + int i) * header_length ctl))))) \<and>
      (\<forall>sinfo. r = Some sinfo \<longrightarrow>
         initial_pos sinfo = foff w + int k * header_length ctl \<and> num_streams sinfo = n \<and>
         (\<forall>i<nat n. last_head (streams sinfo ! i) =
            next_of (header_at ctl (fbytes w) (nat (foff w + (int k + int i) * header_length ctl)))))"
proof -
  define hl where "hl = header_length ctl"
  have hl: "0 < hl" by (simp add: hl_def header_length_pos)
  note fit = fit [folded hl_def] and zeros = zeros [folded hl_def] and first = first [folded hl_def]
  define bs where "bs = fbytes w"
  define b where "b = foff w + int k * hl"
  let ?V = "\<lambda>j. valid_initial h (header_at ctl bs (nat (b + int j * hl)))"
  let ?N = "\<lambda>j. next_of (header_at ctl bs (nat (b + int j * hl)))"
  define hp4 where "hp4 = heap w @ [(sizeof_stream_info h * 1, True),
     (sizeof_pthread_t h * (threads ctl * n), True), (sizeof_uncomp_thread h * (threads ctl * n), True),
     (sizeof_stream h * n, True)]"
  define wh where "wh = w\<lparr>heap := hp4\<rparr>"
  define s0 where "s0 = \<lparr>streams = replicate (nat n) calloc_stream, num_streams = n, bufsize = 0,
     cur_pos = 0, initial_pos = lseek_cur w, total_read = 0, thread_no = 0\<rparr>"
  have unfold: "open_stream_in h ctl w n =
     (case initial_records h ctl [0 ..< nat n] (wh, s0) of
        None \<Rightarrow> None
      | Some (ok, w', sinfo') \<Rightarrow>
          if \<not> ok then Some (Return (None, w')) else Some (Return (Some sinfo', w')))"
    using a1 a2 a3 a4
    by (simp add: open_stream_in_def malloc_def Let_def wh_def s0_def hp4_def)
  have upt: "[0 ..< nat n] = 0 # [1 ..< nat n]" using n by (simp add: upt_conv_Cons)
  define sa where "sa = upd_stream (upd_stream (upd_stream s0 0
      (\<lambda>st. st\<lparr>base_thread := 0\<rparr>)) 0
      (\<lambda>st. st\<lparr>uthread_no := base_thread st\<rparr>)) 0 (\<lambda>st. st\<lparr>unext_thread := base_thread st\<rparr>)"
  have sa: "length (streams sa) = nat n" "initial_pos sa = foff w" "num_streams sa = n"
    unfolding sa_def by (simp_all add: s0_def lseek_cur_def)
  have wh: "foff wh = foff w" "fbytes wh = bs" by (simp_all add: wh_def bs_def)
  define x where "x = header_at ctl bs (nat (b + int 0 * hl))"
  have le: "int k * hl + hl \<le> (int k + n) * hl"
    using n hl by (simp add: algebra_simps)
  have p1: "0 \<le> foff wh" using off by (simp add: wh)
  have p2: "0 < length (streams sa)" using n sa(1) by simp
  have p3: "foff wh + (int k + 1) * header_length ctl \<le> int (length (fbytes wh))"
    using fit le by (simp add: wh bs_def hl_def algebra_simps)
  have p4: "\<forall>j<k. all_zero h (header_at ctl (fbytes wh) (nat (foff wh + int j * header_length ctl)))"
    using zeros by (simp add: wh bs_def hl_def)
  have p5: "\<not> all_zero h (header_at ctl (fbytes wh) (nat (foff wh + int k * header_length ctl)))"
    using first by (simp add: wh bs_def hl_def)
  have z: "read_initial h ctl wh sa 0 =
     Some (valid_initial h x, wh\<lparr>foff := foff wh + (int k + 1) * hl\<rparr>,
           (upd_stream sa 0 (\<lambda>st. st\<lparr>last_head := next_of x\<rparr>))
             \<lparr>initial_pos := initial_pos sa + int k * hl, total_read := total_read sa + hl\<rparr>)"
    using read_initial_zeros [OF p1 p2 p3 p4 p5]
    by (simp add: x_def b_def wh hl_def)
  define w1 where "w1 = wh\<lparr>foff := foff wh + (int k + 1) * hl\<rparr>"
  define s1 where "s1 = (upd_stream sa 0 (\<lambda>st. st\<lparr>last_head := next_of x\<rparr>))
             \<lparr>initial_pos := initial_pos sa + int k * hl, total_read := total_read sa + hl\<rparr>"
  have s1: "length (streams s1) = nat n" "initial_pos s1 = b" "num_streams s1 = n"
    "last_head (streams s1 ! 0) = next_of x"
    using sa n by (simp_all add: s1_def b_def)
  have run: "initial_records h ctl [0 ..< nat n] (wh, s0) =
      (if \<not> valid_initial h x then Some (False, w1, s1)
       else initial_records h ctl [1 ..< nat n] (w1, s1))"
    unfolding upt using z by (simp add: Let_def sa_def [symmetric] w1_def s1_def)
  have pos: "nat (foff w + (int k + int i) * header_length ctl) = nat (b + int i * hl)" for i
    by (simp add: b_def hl_def algebra_simps)
  show ?thesis
    unfolding pos bs_def [symmetric]
  proof (cases "valid_initial h x")
    case False
    then have "\<exists>i<nat n. \<not> ?V i" using n by (intro exI [of _ 0]) (simp add: x_def)
    with False show "\<exists>r w'. open_stream_in h ctl w n = Some (Return (r, w')) \<and>
      ((r = None) = (\<exists>i<nat n. \<not> ?V i)) \<and>
      (\<forall>sinfo. r = Some sinfo \<longrightarrow>
         initial_pos sinfo = foff w + int k * header_length ctl \<and> num_streams sinfo = n \<and>
         (\<forall>i<nat n. last_head (streams sinfo ! i) = ?N i))"
      by (simp add: unfold run)
  next
    case True
    then have v0: "?V 0" by (simp add: x_def)
    have q1: "0 \<le> b" using off hl by (simp add: b_def)
    have q2: "foff w1 = b + int 1 * hl" by (simp add: w1_def wh b_def algebra_simps)
    have q3: "fbytes w1 = bs" by (simp add: w1_def wh)
    have q4: "nat n \<le> length (streams s1)" using s1(1) by simp
    have q5: "(0::nat) < 1" "1 \<le> nat n" using n by simp_all
    have q6: "b + int (nat n) * hl \<le> int (length bs)"
      using fit n by (simp add: b_def bs_def algebra_simps)
    from initial_records_rest [OF q1 q2 [unfolded hl_def] q3 q4 q5 q6 [unfolded hl_def], of h,
        folded hl_def]
    obtain w' s' where
      r: "initial_records h ctl [1 ..< nat n] (w1, s1) =
            Some ((\<forall>j. 1 \<le> j \<and> j < nat n \<longrightarrow> ?V j), w', s')"
      and ok: "(\<forall>j. 1 \<le> j \<and> j < nat n \<longrightarrow> ?V j) \<longrightarrow>
           initial_pos s' = initial_pos s1 \<and> num_streams s' = num_streams s1 \<and>
           length (streams s') = length (streams s1) \<and>
           (\<forall>j<length (streams s1). last_head (streams s' ! j) =
              (if 1 \<le> j \<and> j < nat n then ?N j else last_head (streams s1 ! j)))"
      by blast
    have split: "(\<exists>i<nat n. \<not> ?V i) = (\<not> (\<forall>j. 1 \<le> j \<and> j < nat n \<longrightarrow> ?V j))"
    proof
      assume "\<exists>i<nat n. \<not> ?V i"
      then obtain i where i: "i < nat n" "\<not> ?V i" by blast
      with v0 have "i \<noteq> 0" by (cases "i = 0") auto
      with i show "\<not> (\<forall>j. 1 \<le> j \<and> j < nat n \<longrightarrow> ?V j)" by (intro notI) (auto dest: spec [of _ i])
    next
      assume "\<not> (\<forall>j. 1 \<le> j \<and> j < nat n \<longrightarrow> ?V j)"
      then show "\<exists>i<nat n. \<not> ?V i" by blast
    qed
    show "\<exists>r w'. open_stream_in h ctl w n = Some (Return (r, w')) \<and>
      ((r = None) = (\<exists>i<nat n. \<not> ?V i)) \<and>
      (\<forall>sinfo. r = Some sinfo \<longrightarrow>
         initial_pos sinfo = foff w + int k * header_length ctl \<and> num_streams sinfo = n \<and>
         (\<forall>i<nat n. last_head (streams sinfo ! i) = ?N i))"
    proof (cases "\<forall>j. 1 \<le> j \<and> j < nat n \<longrightarrow> ?V j")
      case False
      with True r show ?thesis unfolding split by (simp add: unfold run)
    next
      case all: True
      with ok have o: "initial_pos s' = initial_pos s1" "num_streams s' = num_streams s1"
        "length (streams s') = length (streams s1)"
        "\<forall>j<length (streams s1). last_head (streams s' ! j) =
              (if 1 \<le> j \<and> j < nat n then ?N j else last_head (streams s1 ! j))"
        by blast+
      have lh: "last_head (streams s' ! i) = ?N i" if "i < nat n" for i
      proof (cases "i = 0")
        case True
        with o(4) [rule_format, of 0] that s1 show ?thesis by (simp add: x_def)
      next
        case False
        with o(4) [rule_format, of i] that s1(1) show ?thesis by simp
      qed
      have res: "open_stream_in h ctl w n = Some (Return (Some s', w'))"
        using True all r by (simp add: unfold run)
      show ?thesis
        apply (rule exI [of _ "Some s'"])
        apply (rule exI [of _ w'])
        unfolding split using res all o(1,2) s1(2,3) lh by (simp add: b_def hl_def)
    qed
  qed
qed

text \<open>
  A file of the current format with two all-zero headers before the sentinel of the one
  stream. The claim as stated fails on it: the initial position is advanced by 50 bytes,
  in two steps of 25, not by 13 bytes in one step.
\<close>

definition two_zero_file :: world where
  "two_zero_file = w0\<lparr>fbytes := 3 # replicate 24 0 @ 3 # replicate 24 0 @ 3 # replicate 16 0
     @ [75, 0, 0, 0, 0, 0, 0, 0]\<rparr>"

theorem reader_open_counterexample:
  "header_at ctl1 (fbytes two_zero_file) 0 = (3, 0, 0, 0) \<and>
   header_at ctl1 (fbytes two_zero_file) 25 = (3, 0, 0, 0) \<and>
   header_at ctl1 (fbytes two_zero_file) 50 = (3, 0, 0, 75) \<and>
   ctype_byte ex_host CTYPE_NONE = 3 \<and>
   map_option (map_outcome (map_option initial_pos \<circ> fst)) (open_stream_in ex_host ctl1 two_zero_file 1)
     = Some (Return (Some 50))"
  by code_simp

text \<open>The same file, by the theorem, with \<open>k = 2\<close> and \<open>n = 1\<close>.\<close>

theorem reader_open_witness:
  "map_option (map_outcome (map_option initial_pos \<circ> fst)) (open_stream_in ex_host ctl1 two_zero_file 1)
     = Some (Return (Some (0 + 2 * 25))) \<and>
   map_option (map_outcome (map_option (\<lambda>s. last_head (streams s ! 0)) \<circ> fst))
       (open_stream_in ex_host ctl1 two_zero_file 1)
     = Some (Return (Some 75)) \<and>
   header_length ctl1 = 25 \<and> valid_initial ex_host (header_at ctl1 (fbytes two_zero_file) 50)"
proof -
  have a: "heap_ok ex_host (length (heap two_zero_file)) (sizeof_stream_info ex_host * 1)"
    "heap_ok ex_host (Suc (length (heap two_zero_file))) (sizeof_pthread_t ex_host * (threads ctl1 * 1))"
    "heap_ok ex_host (Suc (Suc (length (heap two_zero_file)))) (sizeof_uncomp_thread ex_host * (threads ctl1 * 1))"
    "heap_ok ex_host (Suc (Suc (Suc (length (heap two_zero_file))))) (sizeof_stream ex_host * 1)"
    by (simp_all add: ex_host_def)
  have hl: "header_length ctl1 = 25" by code_simp
  have f: "foff two_zero_file = 0" "length (fbytes two_zero_file) = 75"
    by (simp_all add: two_zero_file_def w0_def)
  have z0: "all_zero ex_host (header_at ctl1 (fbytes two_zero_file) 0)" by code_simp
  have z1: "all_zero ex_host (header_at ctl1 (fbytes two_zero_file) 25)" by code_simp
  have z2: "\<not> all_zero ex_host (header_at ctl1 (fbytes two_zero_file) 50)" by code_simp
  have v2: "valid_initial ex_host (header_at ctl1 (fbytes two_zero_file) 50)" by code_simp
  have n2: "next_of (header_at ctl1 (fbytes two_zero_file) 50) = 75" by code_simp
  have zeros: "\<forall>j<2. all_zero ex_host (header_at ctl1 (fbytes two_zero_file)
      (nat (foff two_zero_file + int j * header_length ctl1)))"
  proof (intro allI impI)
    fix j :: nat assume "j < 2"
    then consider "j = 0" | "j = 1" by linarith
    then show "all_zero ex_host (header_at ctl1 (fbytes two_zero_file)
      (nat (foff two_zero_file + int j * header_length ctl1)))"
      by cases (simp_all add: f hl z0 z1)
  qed
  have first: "\<not> all_zero ex_host (header_at ctl1 (fbytes two_zero_file)
      (nat (foff two_zero_file + int 2 * header_length ctl1)))"
    using z2 by (simp add: f hl)
  have fit: "foff two_zero_file + (int 2 + 1) * header_length ctl1 \<le> int (length (fbytes two_zero_file))"
    by (simp add: f hl)
  from reader_open [OF a _ _ fit zeros first] f
  obtain r w' where
    r: "open_stream_in ex_host ctl1 two_zero_file 1 = Some (Return (r, w'))"
    and iff: "(r = None) = (\<exists>i<nat 1. \<not> valid_initial ex_host
          (header_at ctl1 (fbytes two_zero_file) (nat (foff two_zero_file + (int 2 + int i) * header_length ctl1))))"
    and h: "\<forall>sinfo. r = Some sinfo \<longrightarrow>
         initial_pos sinfo = foff two_zero_file + int 2 * header_length ctl1 \<and> num_streams sinfo = 1 \<and>
         (\<forall>i<nat 1. last_head (streams sinfo ! i) =
            next_of (header_at ctl1 (fbytes two_zero_file) (nat (foff two_zero_file + (int 2 + int i) * header_length ctl1))))"
    by auto
  from iff v2 have "r \<noteq> None" by (simp add: f hl)
  then obtain sinfo where s: "r = Some sinfo" by auto
  from h s have "initial_pos sinfo = 50" "last_head (streams sinfo ! 0) = 75"
    by (simp_all add: f hl n2)
  with r s hl v2 show ?thesis by simp
qed

text \<open>
  Claim C1. Two streams, one thread, no compression: the producer writes the one byte 65
  to stream 1 and closes. The archive is 76 bytes: the sentinel of stream 0 at 0, all-zero
  since stream 0 has no record; the sentinel of stream 1 at 25, whose \<open>next\<close> field is 50;
  the header of the record at 50 (\<open>c_len = u_len = 1\<close>) and its payload at 75. The reader
  takes the sentinel of stream 0 for the stray header of the workaround, reads the
  sentinel of stream 1 as that of stream 0 and the header of the record as the sentinel of
  stream 1, and returns \<^verbatim>\<open>NULL\<close>: nothing can be read back.
\<close>

definition one_byte_archive :: world where
  "one_byte_archive = w0\<lparr>fbytes := 3 # replicate 24 0 @ 3 # replicate 16 0 @ 50 # replicate 7 0
               @ [3, 1, 0, 0, 0, 0, 0, 0, 0, 1] @ replicate 15 0 @ [65]\<rparr>"

theorem roundtrip_open_fails:
  "map_option (map_outcome fst) (open_stream_in ex_host ctl1 one_byte_archive 2) = Some (Return None)"
  by code_simp

end
